theory Spec2Isabelle
  imports Complex_Main "HOL-Library.Multiset" "HOL-Library.Sublist"
begin

section \<open>Values, exceptions and queues\<close>

text \<open>
  Python values that occur in payloads and results. A float is modelled as a real number.
\<close>

datatype pyval =
    PNone
  | PInt int
  | PFloat real
  | PStr string
  | PDict "(string \<times> pyval) list"

text \<open>The exception classes that the modelled code can meet; all derive from Exception.\<close>

datatype exn =
    Empty
  | TypeError
  | RuntimeError
  | ZeroDivisionError
  | OverflowError
  | AssertionError
  | NotImplementedError
  | OtherError string

text \<open>
  A queue is the list of its entries, head first. An entry is an item, or a fault: an entry
  whose retrieval makes \<open>get\<close> raise an exception other than Empty (a message of a
  cross-process queue that cannot be decoded). \<open>put\<close> only ever appends items.
\<close>

datatype 'a qentry = Item 'a | Fault string

datatype 'a got = Got 'a | GetRaises exn

fun queue_get :: "'a qentry list \<Rightarrow> 'a got \<times> 'a qentry list" where
  "queue_get [] = (GetRaises Empty, [])"
| "queue_get (Item x # q) = (Got x, q)"
| "queue_get (Fault msg # q) = (GetRaises (OtherError msg), q)"

definition queue_put :: "'a \<Rightarrow> 'a qentry list \<Rightarrow> 'a qentry list" where
  "queue_put x q = q @ [Item x]"

section \<open>task.py\<close>

record task =
  id' :: int
  task_type :: string
  payload :: "(string \<times> pyval) list"
  result :: pyval
  processing_time :: real

text \<open>
  The three workload functions are referred to by name. Their bodies touch the file system
  and burn processor time; each one ends in \<open>return {...}\<close>, a dictionary, or raises.
  What they do on a payload is a parameter of the model.
\<close>

datatype workload_fn = Io_task | Cpu_task | Mixed_task

datatype outcome = Returns "(string \<times> pyval) list" | Raises string

record workloads =
  io_task :: "(string \<times> pyval) list \<Rightarrow> outcome"
  cpu_task :: "(string \<times> pyval) list \<Rightarrow> outcome"
  mixed_task :: "(string \<times> pyval) list \<Rightarrow> outcome"

fun call_workload :: "workloads \<Rightarrow> workload_fn \<Rightarrow> (string \<times> pyval) list \<Rightarrow> outcome" where
  "call_workload w Io_task p = io_task w p"
| "call_workload w Cpu_task p = cpu_task w p"
| "call_workload w Mixed_task p = mixed_task w p"

definition task_functions :: "(string \<times> workload_fn) list" where
  "task_functions = [(''io'', Io_task), (''cpu'', Cpu_task), (''mixed'', Mixed_task)]"

definition get_task_function :: "string \<Rightarrow> workload_fn" where
  "get_task_function tt =
     (case map_of task_functions tt of Some f \<Rightarrow> f | None \<Rightarrow> Cpu_task)"

text \<open>Decimal text of an integer, as an f-string prints it.\<close>

definition digit_char :: "nat \<Rightarrow> char" where
  "digit_char d = char_of (48 + d)"

fun str_nat :: "nat \<Rightarrow> string" where
  "str_nat n = (if n < 10 then [digit_char n] else str_nat (n div 10) @ [digit_char (n mod 10)])"

declare str_nat.simps [simp del]

definition str_int :: "int \<Rightarrow> string" where
  "str_int i = (if i < 0 then CHR ''-'' # str_nat (nat (- i)) else str_nat (nat i))"

text \<open>
  The random draws of one call of \<open>generate_random_task\<close>: the index that
  \<open>random.choice\<close> picks in the three-element list, and the results of the calls of
  \<open>random.randint\<close> in the order in which the chosen branch makes them.
\<close>

record draws =
  pick :: nat
  randint1 :: int
  randint2 :: int
  randint3 :: int

definition task_types :: "string list" where
  "task_types = [''io'', ''cpu'', ''mixed'']"

definition generate_random_task :: "draws \<Rightarrow> int \<Rightarrow> task" where
  "generate_random_task d task_id =
     (let tt = task_types ! (pick d mod 3);
          pl = (if tt = ''io'' then
                  [(''filename'', PStr (''file_'' @ str_int task_id @ ''.txt'')),
                   (''content'', PStr (''Content for task '' @ str_int task_id)),
                   (''size'', PInt (randint1 d))]
                else if tt = ''cpu'' then
                  [(''iterations'', PInt (randint1 d)),
                   (''complexity'', PInt (randint2 d))]
                else
                  [(''filename'', PStr (''mixed_'' @ str_int task_id @ ''.txt'')),
                   (''iterations'', PInt (randint1 d)),
                   (''complexity'', PInt (randint2 d)),
                   (''size'', PInt (randint3 d))])
      in \<lparr>id' = task_id, task_type = tt, payload = pl, result = PNone, processing_time = 0\<rparr>)"

section \<open>worker.py\<close>

text \<open>
  \<open>process_task\<close> reads the clock before the workload (\<open>start_time\<close>) and once more
  after it, on the normal path as well as in the handler (\<open>end_time\<close>). The handler
  catches every Exception that the lookup or the workload raises.
\<close>

definition process_task :: "workloads \<Rightarrow> real \<Rightarrow> real \<Rightarrow> task \<Rightarrow> task" where
  "process_task w start_time end_time t =
     (case call_workload w (get_task_function (task_type t)) (payload t) of
        Returns r \<Rightarrow> t\<lparr>result := PDict r, processing_time := end_time - start_time\<rparr>
      | Raises msg \<Rightarrow>
          t\<lparr>result := PStr (''Error: '' @ msg), processing_time := end_time - start_time\<rparr>)"

text \<open>
  A worker is a thread or a process running the loop of \<open>run\<close>. Nothing in the repository
  calls \<open>Worker.stop\<close>, so the flag \<open>self.running\<close> of a worker is True throughout and the
  loop is left only through the poison pill. The control state of a worker:
  not yet started; at the top of the loop, about to call \<open>task_queue.get\<close>; holding a
  task taken from the queue at the recorded clock reading; after the loop.
\<close>

datatype wstate = Created | Await | Processing task real | Stopped

record worker =
  worker_id :: int
  worker_type :: string
  wstate :: wstate

definition ThreadWorker :: "int \<Rightarrow> worker" where
  "ThreadWorker i = \<lparr>worker_id = i, worker_type = ''thread'', wstate = Created\<rparr>"

definition ProcessWorker :: "int \<Rightarrow> worker" where
  "ProcessWorker i = \<lparr>worker_id = i, worker_type = ''process'', wstate = Created\<rparr>"

text \<open>
  Starting a thread or a process a second time, or joining one that was never started,
  raises: RuntimeError for a thread, AssertionError for a process.
\<close>

definition lifecycle_error :: "worker \<Rightarrow> exn" where
  "lifecycle_error w = (if worker_type w = ''process'' then AssertionError else RuntimeError)"

text \<open>
  One step of a worker at clock reading \<open>now\<close>, on the two queues it shares with the
  master. In \<open>Await\<close> the step is the call of \<open>get(timeout=0.5)\<close>: an empty queue raises
  Empty and the loop continues, any other exception is logged and the loop continues,
  \<open>None\<close> ends the loop, a task is taken. In \<open>Processing\<close> the step runs the workload
  and puts the processed task on the result queue.
\<close>

fun worker_step ::
  "workloads \<Rightarrow> real \<Rightarrow> worker \<Rightarrow> task option qentry list \<Rightarrow> task qentry list \<Rightarrow>
   worker \<times> task option qentry list \<times> task qentry list" where
  "worker_step wl now w tq rq =
     (case wstate w of
        Created \<Rightarrow> (w, tq, rq)
      | Stopped \<Rightarrow> (w, tq, rq)
      | Await \<Rightarrow>
          (case queue_get tq of
             (GetRaises e, tq') \<Rightarrow> (w, tq', rq)
           | (Got None, tq') \<Rightarrow> (w\<lparr>wstate := Stopped\<rparr>, tq', rq)
           | (Got (Some t), tq') \<Rightarrow> (w\<lparr>wstate := Processing t now\<rparr>, tq', rq))
      | Processing t start_time \<Rightarrow>
          (w\<lparr>wstate := Await\<rparr>, tq, queue_put (process_task wl start_time now t) rq))"

declare worker_step.simps [simp del]

section \<open>master.py\<close>

record master =
  name :: string
  num_workers :: int
  workers :: "worker list"
  task_queue :: "task option qentry list"
  result_queue :: "task qentry list"
  running :: bool
  tasks_submitted :: int
  tasks_completed :: int

subsection \<open>Construction\<close>

text \<open>
  \<open>Master.__init__\<close> up to the call of \<open>create_queues\<close>, which every backend overrides
  with the creation of two empty queues. The base class itself raises there.
\<close>

definition master_init :: "string \<Rightarrow> int \<Rightarrow> master" where
  "master_init nm n =
     \<lparr>name = nm, num_workers = n, workers = [], task_queue = [], result_queue = [],
      running = False, tasks_submitted = 0, tasks_completed = 0\<rparr>"

definition Master :: "string \<Rightarrow> pyval \<Rightarrow> exn + master" where
  "Master nm v = Inl NotImplementedError"

text \<open>
  The worker count arrives as a Python value. The single-process master ignores it. The
  other two store it and build the pool from \<open>range(num_workers)\<close>, which raises
  TypeError for a value that is not an integer and is empty for an integer below one.
\<close>

definition SingleProcessMaster :: "pyval \<Rightarrow> exn + master" where
  "SingleProcessMaster v =
     Inr ((master_init ''single_process'' 1)\<lparr>workers := [ThreadWorker 1]\<rparr>)"

fun ThreadedMaster :: "pyval \<Rightarrow> exn + master" where
  "ThreadedMaster (PInt n) =
     Inr ((master_init ''threaded'' n)
            \<lparr>workers := map (\<lambda>i. ThreadWorker (int i + 1)) [0..<nat n]\<rparr>)"
| "ThreadedMaster v = Inl TypeError"

fun MultiprocessMaster :: "pyval \<Rightarrow> exn + master" where
  "MultiprocessMaster (PInt n) =
     Inr ((master_init ''multiprocess'' n)
            \<lparr>workers := map (\<lambda>i. ProcessWorker (int i + 1)) [0..<nat n]\<rparr>)"
| "MultiprocessMaster v = Inl TypeError"

datatype backend = SingleProcess | Threaded | Multiprocess

fun construct :: "backend \<Rightarrow> pyval \<Rightarrow> exn + master" where
  "construct SingleProcess v = SingleProcessMaster v"
| "construct Threaded v = ThreadedMaster v"
| "construct Multiprocess v = MultiprocessMaster v"

subsection \<open>Operations of the master\<close>

text \<open>
  \<open>start_workers\<close> starts the workers in order; the first one that was started before
  raises, the workers before it stay started and \<open>running\<close> is not set.
\<close>

fun start_all :: "worker list \<Rightarrow> exn option \<times> worker list" where
  "start_all [] = (None, [])"
| "start_all (w # ws) =
     (if wstate w = Created
      then (case start_all ws of (e, ws') \<Rightarrow> (e, w\<lparr>wstate := Await\<rparr> # ws'))
      else (Some (lifecycle_error w), w # ws))"

definition start_workers :: "master \<Rightarrow> exn option \<times> master" where
  "start_workers m =
     (case start_all (workers m) of
        (None, ws) \<Rightarrow> (None, m\<lparr>workers := ws, running := True\<rparr>)
      | (Some e, ws) \<Rightarrow> (Some e, m\<lparr>workers := ws\<rparr>))"

text \<open>
  \<open>stop_workers\<close>: nothing when not running; else one \<open>None\<close> per worker, then the joins.
  A join waits at most two seconds and changes no field; joining a worker that was never
  started raises, after the pills were sent and before \<open>running\<close> is cleared.
\<close>

definition stop_workers :: "master \<Rightarrow> exn option \<times> master" where
  "stop_workers m =
     (if \<not> running m then (None, m)
      else
        let m' = m\<lparr>task_queue := task_queue m @ replicate (length (workers m)) (Item None)\<rparr>
        in (case filter (\<lambda>w. wstate w = Created) (workers m) of
              [] \<Rightarrow> (None, m'\<lparr>running := False\<rparr>)
            | w # _ \<Rightarrow> (Some (lifecycle_error w), m')))"

definition submit_task :: "task \<Rightarrow> master \<Rightarrow> master" where
  "submit_task t m =
     m\<lparr>task_queue := queue_put (Some t) (task_queue m),
       tasks_submitted := tasks_submitted m + 1\<rparr>"

text \<open>
  One round of the loop in \<open>collect_results\<close>: \<open>get(block=False)\<close> either hands out an
  item, which is counted, or raises, which ends the loop whatever the exception is.
\<close>

definition collect_get :: "master \<Rightarrow> task option \<times> master" where
  "collect_get m =
     (case queue_get (result_queue m) of
        (Got t, q) \<Rightarrow>
          (Some t, m\<lparr>result_queue := q, tasks_completed := tasks_completed m + 1\<rparr>)
      | (GetRaises e, q) \<Rightarrow> (None, m\<lparr>result_queue := q\<rparr>))"

lemma queue_get_shorter:
  "queue_get q = (Got t, q') \<Longrightarrow> length q' < length q"
  by (cases q rule: queue_get.cases) auto

lemma collect_get_shorter:
  "collect_get m = (Some t, m') \<Longrightarrow> length (result_queue m') < length (result_queue m)"
  by (auto simp: collect_get_def split: prod.splits got.splits dest: queue_get_shorter)

function collect_loop :: "master \<Rightarrow> task list \<Rightarrow> task list \<times> master" where
  "collect_loop m results =
     (case collect_get m of
        (Some t, m') \<Rightarrow> collect_loop m' (results @ [t])
      | (None, m') \<Rightarrow> (results, m'))"
  by pat_completeness auto
termination
  by (relation "measure (\<lambda>(m, results). length (result_queue m))")
     (auto dest: collect_get_shorter [OF sym])

declare collect_loop.simps [simp del]

text \<open>The parameter \<open>timeout\<close> of \<open>collect_results\<close> is never read.\<close>

definition collect_results :: "real option \<Rightarrow> master \<Rightarrow> task list \<times> master" where
  "collect_results timeout m = collect_loop m []"

text \<open>
  \<open>generate_workload\<close> submits the tasks numbered from one; \<open>rng\<close> gives the random draws
  made for each task. It returns \<open>tasks_submitted\<close>.
\<close>

definition generate_workload :: "(int \<Rightarrow> draws) \<Rightarrow> int \<Rightarrow> master \<Rightarrow> int \<times> master" where
  "generate_workload rng n m =
     (let m' = foldl (\<lambda>m i. submit_task (generate_random_task (rng (int i + 1)) (int i + 1)) m)
                 m [0..<nat n]
      in (tasks_submitted m', m'))"

subsection \<open>Statistics of a benchmark\<close>

text \<open>
  A float is modelled as the real number it stands for: the rounding of a floating-point
  operation is not modelled, and a quotient that would overflow to infinity is the exact
  quotient here. What is modelled is which divisions raise. Dividing by a float that is
  zero raises ZeroDivisionError. Dividing an integer by a float first converts the
  integer, which raises OverflowError when the integer does not round to a finite
  double, that is from \<open>2 ^ 1024 - 2 ^ 970\<close> on in absolute value.
\<close>

definition py_truediv :: "real \<Rightarrow> real \<Rightarrow> exn + real" where
  "py_truediv a b = (if b = 0 then Inl ZeroDivisionError else Inr (a / b))"

definition float_int_limit :: int where
  "float_int_limit = 2 ^ 1024 - 2 ^ 970"

definition py_float :: "int \<Rightarrow> exn + real" where
  "py_float n = (if \<bar>n\<bar> < float_int_limit then Inr (real_of_int n) else Inl OverflowError)"

definition py_int_truediv :: "int \<Rightarrow> real \<Rightarrow> exn + real" where
  "py_int_truediv n b = (case py_float n of Inl e \<Rightarrow> Inl e | Inr a \<Rightarrow> py_truediv a b)"

record stats =
  master_type :: string
  num_workers' :: int
  num_tasks :: int
  total_time :: real
  tasks_per_second :: real
  avg_task_time :: real
  avg_by_type :: "(string \<times> real) list"
  memory_mb :: real

text \<open>The dictionary from task type to the list of processing times, in insertion order.\<close>

definition group_add :: "(string \<times> real list) list \<Rightarrow> task \<Rightarrow> (string \<times> real list) list" where
  "group_add d t =
     (let d' = (if task_type t \<notin> set (map fst d) then d @ [(task_type t, [])] else d)
      in map (\<lambda>(k, ts). if k = task_type t then (k, ts @ [processing_time t]) else (k, ts)) d')"

fun avg_items :: "(string \<times> real list) list \<Rightarrow> exn + (string \<times> real) list" where
  "avg_items [] = Inr []"
| "avg_items ((k, ts) # d) =
     (case py_truediv (sum_list ts) (real (length ts)) of
        Inl e \<Rightarrow> Inl e
      | Inr a \<Rightarrow> (case avg_items d of Inl e \<Rightarrow> Inl e | Inr r \<Rightarrow> Inr ((k, a) # r)))"

text \<open>
  The part of \<open>run_benchmark\<close> between the two clock readings and the return: the
  arguments are the master, \<open>num_tasks\<close>, \<open>start_time\<close>, \<open>end_time\<close>, the list
  returned by \<open>wait_for_completion\<close> and the memory sample.
\<close>

definition benchmark_result ::
  "master \<Rightarrow> int \<Rightarrow> real \<Rightarrow> real \<Rightarrow> task list \<Rightarrow> real \<Rightarrow> exn + stats" where
  "benchmark_result m n start_time end_time results mem =
     (let tt = end_time - start_time;
          task_times = map processing_time results
      in case (if tt > 0 then py_int_truediv n tt else Inr 0) of
           Inl e \<Rightarrow> Inl e
         | Inr tps \<Rightarrow>
            (case (if task_times \<noteq> []
                   then py_truediv (sum_list task_times) (real (length task_times))
                   else Inr 0) of
               Inl e \<Rightarrow> Inl e
             | Inr avg \<Rightarrow>
                (case avg_items (foldl group_add [] results) of
                   Inl e \<Rightarrow> Inl e
                 | Inr by_type \<Rightarrow>
                     Inr \<lparr>master_type = name m, num_workers' = num_workers m, num_tasks = n,
                          total_time = tt, tasks_per_second = tps, avg_task_time = avg,
                          avg_by_type = by_type, memory_mb = mem\<rparr>)))"

section \<open>The master and its workers running together\<close>

text \<open>
  The master and the workers run concurrently and meet only at the two queues, whose
  operations are atomic. A run is a sequence of events; each event lets one of them do
  its next queue operation, together with the private computation that follows it, at a
  given reading of the clock.

  The master executes \<open>run_benchmark\<close>. \<open>start_workers\<close> is one event; so is
  \<open>stop_workers\<close>, whose pills go to the tail of the task queue in a row and whose
  joins, which wait at most two seconds each, are not waited for. Its control points: before \<open>start_workers\<close>;
  inside \<open>generate_workload\<close> with \<open>i\<close> tasks submitted; inside \<open>collect_results\<close> with
  the batch collected so far, called from the loop of \<open>wait_for_completion\<close> or for the
  final collection; before \<open>stop_workers\<close> in the \<open>finally\<close> clause; returned.
\<close>

datatype pc = Start | Gen nat | Collect bool "task list" | Stop | Done

record env =
  loads :: workloads
  rng :: "int \<Rightarrow> draws"
  rss_mb :: real

record config =
  mst :: master
  pc :: pc
  arg_num_tasks :: int
  all_results :: "task list"
  wait_timeout :: "real option"
  wait_start :: real
  bench_start :: real
  report :: "(exn + stats) option"

text \<open>The test \<open>timeout and (time.time() - start_time) > timeout\<close>.\<close>

definition timed_out :: "real option \<Rightarrow> real \<Rightarrow> real \<Rightarrow> bool" where
  "timed_out timeout start_time now =
     (case timeout of None \<Rightarrow> False | Some d \<Rightarrow> d \<noteq> 0 \<and> now - start_time > d)"

text \<open>
  The head of the loop in \<open>wait_for_completion\<close>: the next thing the master does is a
  collection, inside the loop or the final one.
\<close>

definition loop_head :: "real \<Rightarrow> config \<Rightarrow> config" where
  "loop_head now c =
     (if tasks_completed (mst c) < tasks_submitted (mst c)
         \<and> \<not> timed_out (wait_timeout c) (wait_start c) now
      then c\<lparr>pc := Collect False []\<rparr>
      else c\<lparr>pc := Collect True []\<rparr>)"

text \<open>\<open>run_benchmark\<close> calls \<open>wait_for_completion()\<close> with no timeout.\<close>

definition enter_wait :: "real \<Rightarrow> config \<Rightarrow> config" where
  "enter_wait now c = loop_head now (c\<lparr>wait_timeout := None, wait_start := now\<rparr>)"

definition master_step :: "env \<Rightarrow> real \<Rightarrow> config \<Rightarrow> config" where
  "master_step e now c =
     (case pc c of
        Start \<Rightarrow>
          (case start_workers (mst c) of
             (Some ex, m') \<Rightarrow> c\<lparr>mst := m', pc := Stop, report := Some (Inl ex)\<rparr>
           | (None, m') \<Rightarrow>
               (let c' = c\<lparr>mst := m', bench_start := now\<rparr>
                in if 0 < arg_num_tasks c then c'\<lparr>pc := Gen 0\<rparr> else enter_wait now c'))
      | Gen i \<Rightarrow>
          (let t = generate_random_task (rng e (int i + 1)) (int i + 1);
               c' = c\<lparr>mst := submit_task t (mst c)\<rparr>
           in if int (Suc i) < arg_num_tasks c then c'\<lparr>pc := Gen (Suc i)\<rparr>
              else enter_wait now c')
      | Collect final batch \<Rightarrow>
          (case collect_get (mst c) of
             (Some t, m') \<Rightarrow> c\<lparr>mst := m', pc := Collect final (batch @ [t])\<rparr>
           | (None, m') \<Rightarrow>
               (let c' = c\<lparr>mst := m', all_results := all_results c @ batch\<rparr>
                in if final
                   then c'\<lparr>pc := Stop,
                           report := Some (benchmark_result m' (arg_num_tasks c) (bench_start c)
                                             now (all_results c') (rss_mb e))\<rparr>
                   else loop_head now c'))
      | Stop \<Rightarrow>
          (case stop_workers (mst c) of
             (Some ex, m') \<Rightarrow> c\<lparr>mst := m', pc := Done, report := Some (Inl ex)\<rparr>
           | (None, m') \<Rightarrow> c\<lparr>mst := m', pc := Done\<rparr>)
      | Done \<Rightarrow> c)"

datatype event = MasterEv real | WorkerEv nat real

fun step :: "env \<Rightarrow> event \<Rightarrow> config \<Rightarrow> config" where
  "step e (MasterEv now) c = master_step e now c"
| "step e (WorkerEv i now) c =
     (if i < length (workers (mst c))
      then (case worker_step (loads e) now (workers (mst c) ! i)
                    (task_queue (mst c)) (result_queue (mst c)) of
              (w', tq', rq') \<Rightarrow>
                c\<lparr>mst := (mst c)\<lparr>workers := (workers (mst c))[i := w'],
                                 task_queue := tq', result_queue := rq'\<rparr>\<rparr>)
      else c)"

definition exec :: "env \<Rightarrow> event list \<Rightarrow> config \<Rightarrow> config" where
  "exec e evs c = foldl (\<lambda>c ev. step e ev c) c evs"

definition run_benchmark :: "master \<Rightarrow> int \<Rightarrow> config" where
  "run_benchmark m n =
     \<lparr>mst = m, pc = Start, arg_num_tasks = n, all_results = [], wait_timeout = None,
      wait_start = 0, bench_start = 0, report = None\<rparr>"

section \<open>Notions used to state and prove the properties\<close>

subsection \<open>Where the tasks are\<close>

text \<open>
  The tasks waiting in the task queue, the tasks waiting in the result queue, the tasks
  held by the workers (taken from the task queue, not yet put on the result queue), and
  the batch that a running \<open>collect_results\<close> has gathered so far.
\<close>

fun tq_tasks :: "task option qentry list \<Rightarrow> task list" where
  "tq_tasks [] = []"
| "tq_tasks (Item (Some t) # q) = t # tq_tasks q"
| "tq_tasks (x # q) = tq_tasks q"

fun rq_tasks :: "task qentry list \<Rightarrow> task list" where
  "rq_tasks [] = []"
| "rq_tasks (Item t # q) = t # rq_tasks q"
| "rq_tasks (x # q) = rq_tasks q"

fun held_of :: "wstate \<Rightarrow> task list" where
  "held_of (Processing t s) = [t]"
| "held_of x = []"

definition held :: "worker list \<Rightarrow> task list" where
  "held ws = concat (map (\<lambda>w. held_of (wstate w)) ws)"

fun batch_of :: "pc \<Rightarrow> task list" where
  "batch_of (Collect final batch) = batch"
| "batch_of p = []"

text \<open>
  Every task that has reached the result queue, oldest first: the master is the only
  reader of that queue and keeps what it reads, in order. And every task in the system,
  the furthest advanced first.
\<close>

definition arrived :: "config \<Rightarrow> task list" where
  "arrived c = all_results c @ batch_of (pc c) @ rq_tasks (result_queue (mst c))"

definition flight :: "config \<Rightarrow> task list" where
  "flight c =
     all_results c @ batch_of (pc c) @ rq_tasks (result_queue (mst c)) @
     held (workers (mst c)) @ tq_tasks (task_queue (mst c))"

subsection \<open>What a run puts on the queues\<close>

text \<open>
  The id that an event puts on the task queue (the master inside \<open>generate_workload\<close>
  submits the next task) and the id that an event puts on the result queue (a worker
  holding a task puts it), if any; and the sequences of these ids along a run.
\<close>

definition submits :: "event \<Rightarrow> config \<Rightarrow> int list" where
  "submits ev c =
     (case ev of
        MasterEv now \<Rightarrow> (case pc c of Gen i \<Rightarrow> [int i + 1] | _ \<Rightarrow> [])
      | WorkerEv i now \<Rightarrow> [])"

definition arrives :: "event \<Rightarrow> config \<Rightarrow> int list" where
  "arrives ev c =
     (case ev of
        MasterEv now \<Rightarrow> []
      | WorkerEv i now \<Rightarrow>
          (if i < length (workers (mst c))
           then map id' (held_of (wstate (workers (mst c) ! i))) else []))"

fun submitted_ids :: "env \<Rightarrow> event list \<Rightarrow> config \<Rightarrow> int list" where
  "submitted_ids e [] c = []"
| "submitted_ids e (ev # evs) c = submits ev c @ submitted_ids e evs (step e ev c)"

fun arrived_ids :: "env \<Rightarrow> event list \<Rightarrow> config \<Rightarrow> int list" where
  "arrived_ids e [] c = []"
| "arrived_ids e (ev # evs) c = arrives ev c @ arrived_ids e evs (step e ev c)"

subsection \<open>The invariant of a run\<close>

text \<open>
  The number of tasks submitted at a control point of the master, when \<open>N\<close> tasks are
  asked for, and the ids \<open>1, ..., k\<close>.
\<close>

fun submitted_at :: "nat \<Rightarrow> pc \<Rightarrow> nat" where
  "submitted_at N Start = 0"
| "submitted_at N (Gen i) = i"
| "submitted_at N p = N"

definition task_ids :: "nat \<Rightarrow> int list" where
  "task_ids k = map int [1..<Suc k]"

text \<open>
  A master as its constructor leaves it, and the same master after \<open>start_workers\<close>.
  A master at work: running, every worker in its loop, nothing but tasks on the queues.
\<close>

definition fresh :: "master \<Rightarrow> bool" where
  "fresh m \<longleftrightarrow>
     \<not> running m \<and> (\<forall>w \<in> set (workers m). wstate w = Created) \<and>
     task_queue m = [] \<and> result_queue m = [] \<and>
     tasks_submitted m = 0 \<and> tasks_completed m = 0"

definition started :: "master \<Rightarrow> master" where
  "started m = m\<lparr>workers := map (\<lambda>w. w\<lparr>wstate := Await\<rparr>) (workers m), running := True\<rparr>"

definition live :: "master \<Rightarrow> bool" where
  "live m \<longleftrightarrow>
     running m \<and>
     (\<forall>w \<in> set (workers m). wstate w = Await \<or> (\<exists>t s. wstate w = Processing t s)) \<and>
     (\<forall>x \<in> set (task_queue m). \<exists>t. x = Item (Some t)) \<and>
     (\<forall>x \<in> set (result_queue m). \<exists>t. x = Item t)"

definition reported :: "config \<Rightarrow> bool" where
  "reported c \<longleftrightarrow>
     (\<exists>m s f mem. report c =
        Some (benchmark_result m (arg_num_tasks c) s f (all_results c) mem))"

text \<open>
  What holds at every moment of \<open>run_benchmark\<close> on a newly constructed master: the
  counters agree with the control point and with the results gathered; the tasks in the
  system are, up to order, the tasks submitted so far; the final collection is entered
  only with all results gathered, and the loop only with some result missing.
\<close>

definition invariant :: "config \<Rightarrow> bool" where
  "invariant c \<longleftrightarrow>
     tasks_submitted (mst c) = int (submitted_at (nat (arg_num_tasks c)) (pc c)) \<and>
     tasks_completed (mst c) = int (length (all_results c) + length (batch_of (pc c))) \<and>
     mset (map id' (flight c)) =
       mset (task_ids (submitted_at (nat (arg_num_tasks c)) (pc c))) \<and>
     (case pc c of
        Start \<Rightarrow> fresh (mst c)
      | Gen i \<Rightarrow> live (mst c) \<and> i < nat (arg_num_tasks c)
      | Collect final b \<Rightarrow>
          live (mst c) \<and> wait_timeout c = None \<and>
          (if final then nat (arg_num_tasks c) \<le> length (all_results c) + length b
           else length (all_results c) < nat (arg_num_tasks c))
      | Stop \<Rightarrow> live (mst c) \<and> nat (arg_num_tasks c) \<le> length (all_results c) \<and> reported c
      | Done \<Rightarrow>
          \<not> running (mst c) \<and> nat (arg_num_tasks c) \<le> length (all_results c) \<and> reported c)"

text \<open>The configurations of a benchmark of at least one task on an empty pool.\<close>

definition stuck :: "config \<Rightarrow> bool" where
  "stuck c \<longleftrightarrow>
     invariant c \<and> workers (mst c) = [] \<and> result_queue (mst c) = [] \<and> all_results c = [] \<and>
     0 < arg_num_tasks c \<and> (pc c = Start \<or> (\<exists>i. pc c = Gen i) \<or> pc c = Collect False [])"

subsection \<open>Fair schedules and the work that remains\<close>

text \<open>
  Who moves in an event: \<open>None\<close> is the master, \<open>Some i\<close> the worker at index
  \<open>i\<close> of the pool. A round is a sequence of events in which the master and each of
  the \<open>k\<close> workers move at least once.
\<close>

fun actor :: "event \<Rightarrow> nat option" where
  "actor (MasterEv now) = None"
| "actor (WorkerEv i now) = Some i"

definition covers :: "nat \<Rightarrow> event list \<Rightarrow> bool" where
  "covers k evs \<longleftrightarrow> None \<in> set (map actor evs) \<and> (\<forall>i<k. Some i \<in> set (map actor evs))"

text \<open>
  A bound on the number of useful steps that remain: a task still to be submitted counts
  five, a task in the task queue four, a task held by a worker three, a task in the result
  queue two, a batch not yet added to the results one, and the control point of the
  master for the rest.
\<close>

fun phase :: "pc \<Rightarrow> nat" where
  "phase Start = 4"
| "phase (Gen i) = 3"
| "phase (Collect final b) = (if final then 2 else 3)"
| "phase Stop = 1"
| "phase Done = 0"

definition load :: "master \<Rightarrow> nat" where
  "load m =
     4 * length (tq_tasks (task_queue m)) + 3 * length (held (workers m)) +
     2 * length (rq_tasks (result_queue m))"

definition potential :: "config \<Rightarrow> nat" where
  "potential c =
     phase (pc c) + 5 * (nat (arg_num_tasks c) - submitted_at (nat (arg_num_tasks c)) (pc c)) +
     (if batch_of (pc c) = [] then 0 else 1) + load (mst c)"

text \<open>
  Whose next step is useful: the master's unless it polls an empty result queue with an
  empty batch inside the loop, a worker's when it holds a task or finds the task queue
  non-empty.
\<close>

definition productive :: "nat option \<Rightarrow> config \<Rightarrow> bool" where
  "productive a c =
     (case a of
        None \<Rightarrow>
          (case pc c of
             Done \<Rightarrow> False
           | Collect final b \<Rightarrow> final \<or> b \<noteq> [] \<or> result_queue (mst c) \<noteq> []
           | _ \<Rightarrow> True)
      | Some i \<Rightarrow>
          pc c \<noteq> Start \<and> pc c \<noteq> Done \<and> i < length (workers (mst c)) \<and>
          (case wstate (workers (mst c) ! i) of
             Processing t s \<Rightarrow> True
           | Await \<Rightarrow> task_queue (mst c) \<noteq> []
           | _ \<Rightarrow> False))"

subsection \<open>An example run\<close>

text \<open>
  Workloads of which the io one fails, a single-process master, and a run of one task:
  start, submit, take, put, collect, end of the batch, final collection, stop.
\<close>

definition demo_env :: env where
  "demo_env =
     \<lparr>loads = \<lparr>io_task = (\<lambda>p. Raises ''disk full''), cpu_task = (\<lambda>p. Returns p),
               mixed_task = (\<lambda>p. Returns [])\<rparr>,
      rng = (\<lambda>i. \<lparr>pick = nat i, randint1 = 600, randint2 = 1, randint3 = 300\<rparr>),
      rss_mb = 42\<rparr>"

definition demo_master :: master where
  "demo_master = (master_init ''single_process'' 1)\<lparr>workers := [ThreadWorker 1]\<rparr>"

definition demo_run :: "event list" where
  "demo_run =
     [MasterEv 10, MasterEv 11, WorkerEv 0 11, WorkerEv 0 12, MasterEv 13, MasterEv 13,
      MasterEv 14, MasterEv 15]"

section \<open>Properties of the task dispatch and of a worker\<close>

text \<open>
  Claim C7. \<open>get_task_function\<close> returns the io, cpu and mixed workload for the tags
  \<open>io\<close>, \<open>cpu\<close> and \<open>mixed\<close>, and the cpu workload for every other tag, so that a task
  with an unknown tag is run with \<open>cpu_task\<close>.
\<close>

theorem get_task_function_dispatch:
  "get_task_function ''io'' = Io_task \<and>
   get_task_function ''cpu'' = Cpu_task \<and>
   get_task_function ''mixed'' = Mixed_task \<and>
   (tt \<notin> {''io'', ''cpu'', ''mixed''} \<longrightarrow>
      get_task_function tt = Cpu_task \<and>
      call_workload w (get_task_function tt) p = cpu_task w p)"
  by (simp add: get_task_function_def task_functions_def)

theorem get_task_function_dispatch_witness:
  "''gpu'' \<notin> {''io'', ''cpu'', ''mixed''} \<and> get_task_function ''gpu'' = Cpu_task \<and>
   get_task_function ''io'' = Io_task"
  using get_task_function_dispatch [of "''gpu''"] by simp

lemma process_task_fields:
  "id' (process_task w s f t) = id' t \<and>
   task_type (process_task w s f t) = task_type t \<and>
   payload (process_task w s f t) = payload t \<and>
   processing_time (process_task w s f t) = f - s"
  by (simp add: process_task_def split: outcome.splits)

lemma process_task_result:
  "result (process_task w s f t) =
     (case call_workload w (get_task_function (task_type t)) (payload t) of
        Returns r \<Rightarrow> PDict r | Raises msg \<Rightarrow> PStr (''Error: '' @ msg))"
  by (simp add: process_task_def split: outcome.splits)

lemma worker_step_take:
  "wstate w = Await \<Longrightarrow>
   worker_step wl now w (Item (Some t) # tq) rq = (w\<lparr>wstate := Processing t now\<rparr>, tq, rq)"
  by (simp add: worker_step.simps)

lemma worker_step_put:
  "wstate w = Processing t s \<Longrightarrow>
   worker_step wl now w tq rq =
     (w\<lparr>wstate := Await\<rparr>, tq, rq @ [Item (process_task wl s now t)])"
  by (simp add: worker_step.simps queue_put_def)

text \<open>
  Claim C2, as stated, fails: the processing time is the difference of two readings of
  \<open>time.time()\<close>, which is not monotonic, and nothing keeps the difference from being
  negative. With the clock at 5 before the workload and set back to 2 after it, the time
  recorded is \<open>-3\<close>, whether the workload returns or raises.
\<close>

theorem process_task_negative_time:
  "processing_time
     (process_task \<lparr>io_task = (\<lambda>p. Raises ''disk full''), cpu_task = (\<lambda>p. Returns p),
                     mixed_task = (\<lambda>p. Returns [])\<rparr> 5 2
        \<lparr>id' = 7, task_type = ''io'', payload = [], result = PNone, processing_time = 0\<rparr>) = - 3 \<and>
   processing_time
     (process_task \<lparr>io_task = (\<lambda>p. Raises ''disk full''), cpu_task = (\<lambda>p. Returns p),
                     mixed_task = (\<lambda>p. Returns [])\<rparr> 5 2
        \<lparr>id' = 8, task_type = ''cpu'', payload = [], result = PNone, processing_time = 0\<rparr>) = - 3 \<and>
   \<not> 0 \<le> processing_time
     (process_task \<lparr>io_task = (\<lambda>p. Raises ''disk full''), cpu_task = (\<lambda>p. Returns p),
                     mixed_task = (\<lambda>p. Returns [])\<rparr> 5 2
        \<lparr>id' = 7, task_type = ''io'', payload = [], result = PNone, processing_time = 0\<rparr>)"
  by (simp add: process_task_fields)

text \<open>
  Claim C2, amended. Whatever the workload does on a task, return or raise,
  \<open>process_task\<close> hands back the same task (same id, type and payload) with a result
  that is not \<open>None\<close>: the returned dictionary, or the error marker. In both cases the
  processing time recorded is the clock reading after the workload minus the reading
  before it, which is not negative exactly when the clock has not gone backwards in
  between. A worker at the top of its loop that finds the task at the head of the task
  queue takes it, puts the processed task at the tail of the result queue, and is at the
  top of its loop again: a failing workload neither ends the loop nor escapes as an
  exception.
\<close>

theorem process_task_always_completes:
  assumes "wstate w = Await"
  shows "let t' = process_task wl start_time end_time t in
           id' t' = id' t \<and> task_type t' = task_type t \<and> payload t' = payload t \<and>
           result t' \<noteq> PNone \<and>
           processing_time t' = end_time - start_time \<and>
           (0 \<le> processing_time t') = (start_time \<le> end_time) \<and>
           (\<forall>r. call_workload wl (get_task_function (task_type t)) (payload t) = Returns r
                \<longrightarrow> result t' = PDict r) \<and>
           (\<forall>msg. call_workload wl (get_task_function (task_type t)) (payload t) = Raises msg
                \<longrightarrow> result t' = PStr (''Error: '' @ msg)) \<and>
           (case worker_step wl start_time w (Item (Some t) # tq) rq of
              (w1, tq1, rq1) \<Rightarrow>
                worker_step wl end_time w1 tq1 rq1 = (w, tq, rq @ [Item t']))"
  using assms
  by (simp add: Let_def process_task_fields process_task_result worker_step_take worker_step_put
           split: outcome.splits)

theorem process_task_always_completes_witness:
  "wstate ((ThreadWorker 1)\<lparr>wstate := Await\<rparr>) = Await \<and>
   (let wl = \<lparr>io_task = (\<lambda>p. Raises ''disk full''), cpu_task = (\<lambda>p. Returns p),
              mixed_task = (\<lambda>p. Returns [])\<rparr>;
        t = \<lparr>id' = 7, task_type = ''io'', payload = [], result = PNone, processing_time = 0\<rparr>;
        t' = process_task wl 1 3 t
    in result t' = PStr ''Error: disk full'' \<and> processing_time t' = 2 \<and> id' t' = 7 \<and>
       (case worker_step wl 1 ((ThreadWorker 1)\<lparr>wstate := Await\<rparr>) [Item (Some t)] [] of
          (w1, tq1, rq1) \<Rightarrow>
            worker_step wl 3 w1 tq1 rq1 = ((ThreadWorker 1)\<lparr>wstate := Await\<rparr>, [], [Item t'])))"
proof -
  let ?w = "(ThreadWorker 1)\<lparr>wstate := Await\<rparr>"
  let ?wl = "\<lparr>io_task = (\<lambda>p. Raises ''disk full''), cpu_task = (\<lambda>p. Returns p),
              mixed_task = (\<lambda>p. Returns [])\<rparr>"
  let ?t = "\<lparr>id' = 7, task_type = ''io'', payload = [], result = PNone, processing_time = 0\<rparr>"
  have h: "wstate ?w = Await" by simp
  have c: "call_workload ?wl (get_task_function (task_type ?t)) (payload ?t) = Raises ''disk full''"
    by (simp add: get_task_function_def task_functions_def)
  show ?thesis
    using process_task_always_completes [OF h, of ?wl 1 3 ?t "[]" "[]"] c
    by (simp add: Let_def process_task_fields)
qed

section \<open>Properties of the operations of the master\<close>

lemma collect_loop_items:
  "result_queue m = map Item ts @ rest \<Longrightarrow> rest = [] \<or> (\<exists>msg r. rest = Fault msg # r) \<Longrightarrow>
   collect_loop m acc =
     (acc @ ts, m\<lparr>result_queue := tl rest,
                   tasks_completed := tasks_completed m + int (length ts)\<rparr>)"
proof (induction ts arbitrary: m acc)
  case Nil
  then show ?case
    by (subst collect_loop.simps) (auto simp: collect_get_def)
next
  case (Cons t ts)
  let ?m' = "m\<lparr>result_queue := map Item ts @ rest, tasks_completed := tasks_completed m + 1\<rparr>"
  have get: "collect_get m = (Some t, ?m')"
    using Cons.prems(1) by (simp add: collect_get_def)
  have "collect_loop m acc = collect_loop ?m' (acc @ [t])"
    by (subst collect_loop.simps) (simp add: get)
  also have "\<dots> = ((acc @ [t]) @ ts,
      ?m'\<lparr>result_queue := tl rest, tasks_completed := tasks_completed ?m' + int (length ts)\<rparr>)"
    by (rule Cons.IH) (use Cons.prems(2) in simp_all)
  finally show ?case by (simp add: add.assoc)
qed

text \<open>
  Claim C10. \<open>collect_results\<close> never raises. The result queue is some items followed
  either by nothing or by an entry whose retrieval raises; the call returns exactly those
  items, in order, adds their number to \<open>tasks_completed\<close>, leaves \<open>tasks_submitted\<close>
  alone, and consumes the raising entry. The value of \<open>timeout\<close> makes no difference.
\<close>

theorem collect_results_drains_until_exception:
  assumes "result_queue m = map Item ts @ rest"
    and "rest = [] \<or> (\<exists>msg r. rest = Fault msg # r)"
  shows "collect_results timeout m =
           (ts, m\<lparr>result_queue := tl rest,
                  tasks_completed := tasks_completed m + int (length ts)\<rparr>) \<and>
         tasks_submitted (snd (collect_results timeout m)) = tasks_submitted m \<and>
         collect_results timeout m = collect_results None m"
  using collect_loop_items [OF assms, of "[]"] by (simp add: collect_results_def)

theorem collect_results_drains_until_exception_witness:
  "(let t1 = generate_random_task \<lparr>pick = 0, randint1 = 600, randint2 = 0, randint3 = 0\<rparr> 1;
        t2 = generate_random_task \<lparr>pick = 1, randint1 = 100000, randint2 = 2, randint3 = 0\<rparr> 2;
        t3 = generate_random_task \<lparr>pick = 2, randint1 = 50000, randint2 = 1, randint3 = 256\<rparr> 3;
        m = (master_init ''multiprocess'' 2)
              \<lparr>result_queue := [Item t1, Item t2, Fault ''truncated message'', Item t3],
               tasks_submitted := 3\<rparr>
    in collect_results (Some 0.5) m =
         ([t1, t2], m\<lparr>result_queue := [Item t3], tasks_completed := 2\<rparr>) \<and>
       tasks_submitted (snd (collect_results (Some 0.5) m)) = 3)"
proof -
  let ?t1 = "generate_random_task \<lparr>pick = 0, randint1 = 600, randint2 = 0, randint3 = 0\<rparr> 1"
  let ?t2 = "generate_random_task \<lparr>pick = 1, randint1 = 100000, randint2 = 2, randint3 = 0\<rparr> 2"
  let ?t3 = "generate_random_task \<lparr>pick = 2, randint1 = 50000, randint2 = 1, randint3 = 256\<rparr> 3"
  let ?rest = "[Fault ''truncated message'', Item ?t3]"
  let ?m = "(master_init ''multiprocess'' 2)
              \<lparr>result_queue := [Item ?t1, Item ?t2, Fault ''truncated message'', Item ?t3],
               tasks_submitted := 3\<rparr>"
  have h1: "result_queue ?m = map Item [?t1, ?t2] @ ?rest" by simp
  have h2: "?rest = [] \<or> (\<exists>msg r. ?rest = Fault msg # r)" by simp
  show ?thesis
    using collect_results_drains_until_exception [OF h1 h2, of "Some 0.5"]
    by (simp add: Let_def master_init_def)
qed

lemma stop_workers_idle: "\<not> running m \<Longrightarrow> stop_workers m = (None, m)"
  by (simp add: stop_workers_def)

lemma stop_workers_running:
  assumes "running m" and "\<forall>w \<in> set (workers m). wstate w \<noteq> Created"
  shows "stop_workers m =
     (None, m\<lparr>task_queue := task_queue m @ replicate (length (workers m)) (Item None),
              running := False\<rparr>)"
proof -
  from assms(2) have "filter (\<lambda>w. wstate w = Created) (workers m) = []"
    by (simp add: filter_empty_conv)
  with assms(1) show ?thesis by (simp add: stop_workers_def Let_def)
qed

lemma start_all_ok:
  "start_all ws = (None, ws') \<Longrightarrow>
   ws' = map (\<lambda>w. w\<lparr>wstate := Await\<rparr>) ws \<and> (\<forall>w \<in> set ws. wstate w = Created)"
  by (induction ws arbitrary: ws') (auto split: if_splits prod.splits)

lemma start_all_Created:
  "\<forall>w \<in> set ws. wstate w = Created \<Longrightarrow> start_all ws = (None, map (\<lambda>w. w\<lparr>wstate := Await\<rparr>) ws)"
  by (induction ws) auto

lemma start_workers_ok:
  "start_workers m = (None, m') \<Longrightarrow>
   m' = m\<lparr>workers := map (\<lambda>w. w\<lparr>wstate := Await\<rparr>) (workers m), running := True\<rparr>"
  by (auto simp: start_workers_def split: prod.splits option.splits dest: start_all_ok)

text \<open>
  Claim C5. \<open>stop_workers\<close> on a master that is not running returns without error and
  changes nothing. On a running master, whose workers have all been started (as
  \<open>start_workers\<close>, the only place that sets \<open>running\<close>, leaves them), it appends exactly
  one \<open>None\<close> per worker to the task queue and clears \<open>running\<close>. A second call right
  after the first returns without error and changes nothing: no second batch is sent.
\<close>

theorem stop_workers_idempotent:
  assumes "running m \<longrightarrow> (\<forall>w \<in> set (workers m). wstate w \<noteq> Created)"
  shows "(\<not> running m \<longrightarrow> stop_workers m = (None, m)) \<and>
         (running m \<longrightarrow>
            stop_workers m =
              (None, m\<lparr>task_queue := task_queue m @ replicate (length (workers m)) (Item None),
                       running := False\<rparr>)) \<and>
         fst (stop_workers m) = None \<and>
         stop_workers (snd (stop_workers m)) = (None, snd (stop_workers m))"
  using assms stop_workers_running [of m] by (cases "running m") (simp_all add: stop_workers_idle)

theorem stop_workers_idempotent_witness:
  "(let m = (master_init ''threaded'' 2)
              \<lparr>workers := [(ThreadWorker 1)\<lparr>wstate := Await\<rparr>, (ThreadWorker 2)\<lparr>wstate := Await\<rparr>],
               running := True\<rparr>;
        m' = m\<lparr>task_queue := [Item None, Item None], running := False\<rparr>
    in running m \<and> (\<forall>w \<in> set (workers m). wstate w \<noteq> Created) \<and>
       stop_workers m = (None, m') \<and> stop_workers m' = (None, m'))"
proof -
  let ?m = "(master_init ''threaded'' 2)
              \<lparr>workers := [(ThreadWorker 1)\<lparr>wstate := Await\<rparr>, (ThreadWorker 2)\<lparr>wstate := Await\<rparr>],
               running := True\<rparr>"
  let ?m' = "?m\<lparr>task_queue := [Item None, Item None], running := False\<rparr>"
  have h: "running ?m \<longrightarrow> (\<forall>w \<in> set (workers ?m). wstate w \<noteq> Created)" by simp
  note inst = stop_workers_idempotent [OF h]
  from inst have first: "stop_workers ?m = (None, ?m')"
    by (simp add: master_init_def)
  from inst have "stop_workers (snd (stop_workers ?m)) = (None, snd (stop_workers ?m))"
    by blast
  then have second: "stop_workers ?m' = (None, ?m')"
    by (simp only: first snd_conv)
  show ?thesis
    unfolding Let_def using first second by simp
qed

text \<open>
  Claim C4, as stated, fails: no constructor checks the worker count. A threaded master
  asked for zero workers, and a multiprocess master asked for minus two, are constructed,
  with an empty pool.
\<close>

theorem construct_nonpositive_succeeds:
  "construct Threaded (PInt 0) = Inr (master_init ''threaded'' 0) \<and>
   construct Multiprocess (PInt (- 2)) = Inr (master_init ''multiprocess'' (- 2)) \<and>
   workers (master_init ''threaded'' 0) = [] \<and>
   workers (master_init ''multiprocess'' (- 2)) = []"
  by (simp add: master_init_def)

text \<open>
  Claim C4, amended. Construction succeeds for every integer worker count, positive or
  not: the threaded and the multiprocess master keep the count as given and get a pool of
  that many workers, none when the count is below one; the single-process master ignores
  its argument and always succeeds. Construction of a threaded or multiprocess master
  raises, a TypeError, exactly when the count is not an integer.
\<close>

theorem construct_total_on_integers:
  "(\<exists>m. construct b (PInt n) = Inr m \<and>
        num_workers m = (if b = SingleProcess then 1 else n) \<and>
        length (workers m) = (if b = SingleProcess then 1 else nat n)) \<and>
   (\<exists>m. construct SingleProcess v = Inr m) \<and>
   ((\<forall>n. v \<noteq> PInt n) \<longrightarrow>
      construct Threaded v = Inl TypeError \<and> construct Multiprocess v = Inl TypeError)"
  by (cases b; cases v)
     (simp_all add: SingleProcessMaster_def master_init_def)

theorem construct_total_on_integers_witness:
  "(\<forall>n. PNone \<noteq> PInt n) \<and> construct Threaded PNone = Inl TypeError \<and>
   construct Multiprocess PNone = Inl TypeError \<and>
   (\<exists>m. construct Threaded (PInt (- 1)) = Inr m \<and> num_workers m = - 1 \<and> length (workers m) = 0)"
  using construct_total_on_integers [of Threaded "- 1" PNone] by simp

section \<open>Runs of a benchmark\<close>

subsection \<open>What an operation leaves alone\<close>

lemma collect_get_fields:
  "collect_get m = (x, m') \<Longrightarrow>
   num_workers m' = num_workers m \<and> tasks_submitted m' = tasks_submitted m \<and>
   workers m' = workers m \<and> task_queue m' = task_queue m \<and> running m' = running m \<and>
   name m' = name m \<and>
   tasks_completed m' = tasks_completed m + (case x of None \<Rightarrow> 0 | Some t \<Rightarrow> 1)"
  by (auto simp: collect_get_def split: prod.splits got.splits)

lemma collect_loop_fields:
  "collect_loop m acc = (r, m') \<Longrightarrow>
   num_workers m' = num_workers m \<and> tasks_submitted m' = tasks_submitted m \<and>
   tasks_completed m' + int (length acc) = tasks_completed m + int (length r)"
proof (induction m acc arbitrary: r m' rule: collect_loop.induct)
  case (1 m results)
  obtain x m1 where g: "collect_get m = (x, m1)" by (cases "collect_get m")
  show ?case
  proof (cases x)
    case None
    with g "1.prems" have "r = results" "m' = m1"
      by (simp_all add: collect_loop.simps [of m])
    with collect_get_fields [OF g] None show ?thesis by simp
  next
    case (Some t)
    with g "1.prems" have "collect_loop m1 (results @ [t]) = (r, m')"
      by (simp add: collect_loop.simps [of m])
    from "1.IH" [OF g [symmetric] Some this] collect_get_fields [OF g] Some
    show ?thesis by simp
  qed
qed

lemma start_workers_fields:
  "start_workers m = (x, m') \<Longrightarrow>
   num_workers m' = num_workers m \<and> tasks_submitted m' = tasks_submitted m \<and>
   tasks_completed m' = tasks_completed m \<and> task_queue m' = task_queue m \<and>
   result_queue m' = result_queue m \<and> name m' = name m"
  by (auto simp: start_workers_def split: prod.splits option.splits)

lemma stop_workers_fields:
  "stop_workers m = (x, m') \<Longrightarrow>
   num_workers m' = num_workers m \<and> tasks_submitted m' = tasks_submitted m \<and>
   tasks_completed m' = tasks_completed m \<and> workers m' = workers m \<and>
   result_queue m' = result_queue m \<and> name m' = name m"
  by (auto simp: stop_workers_def Let_def split: if_splits list.splits)

lemma submit_task_fields:
  "num_workers (submit_task t m) = num_workers m \<and>
   tasks_submitted (submit_task t m) = tasks_submitted m + 1 \<and>
   tasks_completed (submit_task t m) = tasks_completed m \<and>
   workers (submit_task t m) = workers m \<and> running (submit_task t m) = running m \<and>
   result_queue (submit_task t m) = result_queue m \<and> name (submit_task t m) = name m \<and>
   task_queue (submit_task t m) = task_queue m @ [Item (Some t)]"
  by (simp add: submit_task_def queue_put_def)

lemma foldl_submit_fields:
  "num_workers (foldl (\<lambda>m i. submit_task (f i) m) m is) = num_workers m \<and>
   tasks_submitted (foldl (\<lambda>m i. submit_task (f i) m) m is) = tasks_submitted m + int (length is) \<and>
   tasks_completed (foldl (\<lambda>m i. submit_task (f i) m) m is) = tasks_completed m"
  by (induction "is" arbitrary: m) (simp_all add: submit_task_fields)

lemma generate_workload_fields:
  "generate_workload g n m = (k, m') \<Longrightarrow>
   num_workers m' = num_workers m \<and> tasks_submitted m' = tasks_submitted m + int (nat n) \<and>
   tasks_completed m' = tasks_completed m \<and> k = tasks_submitted m'"
  using foldl_submit_fields [of "\<lambda>i. generate_random_task (g (int i + 1)) (int i + 1)" m "[0..<nat n]"]
  by (auto simp: generate_workload_def Let_def)

lemma loop_head_fields: "mst (loop_head now c) = mst c"
  by (simp add: loop_head_def)

lemma enter_wait_fields: "mst (enter_wait now c) = mst c"
  by (simp add: enter_wait_def loop_head_fields)

lemma master_step_cases:
  "mst (master_step e now c) =
     (case pc c of
        Start \<Rightarrow> snd (start_workers (mst c))
      | Gen i \<Rightarrow> submit_task (generate_random_task (rng e (int i + 1)) (int i + 1)) (mst c)
      | Collect final batch \<Rightarrow> snd (collect_get (mst c))
      | Stop \<Rightarrow> snd (stop_workers (mst c))
      | Done \<Rightarrow> mst c)"
  by (simp add: master_step_def Let_def loop_head_fields enter_wait_fields
           split: pc.splits prod.splits option.splits)

lemma worker_event_fields:
  "num_workers (mst (step e (WorkerEv i now) c)) = num_workers (mst c) \<and>
   tasks_submitted (mst (step e (WorkerEv i now) c)) = tasks_submitted (mst c) \<and>
   tasks_completed (mst (step e (WorkerEv i now) c)) = tasks_completed (mst c) \<and>
   running (mst (step e (WorkerEv i now) c)) = running (mst c) \<and>
   pc (step e (WorkerEv i now) c) = pc c"
  by (simp split: prod.splits)

lemma step_num_workers: "num_workers (mst (step e ev c)) = num_workers (mst c)"
proof (cases ev)
  case (MasterEv now)
  show ?thesis
    unfolding MasterEv step.simps master_step_cases
    using start_workers_fields [OF prod.collapse [symmetric], of "mst c"]
          stop_workers_fields [OF prod.collapse [symmetric], of "mst c"]
          collect_get_fields [OF prod.collapse [symmetric], of "mst c"]
    by (cases "pc c") (simp_all add: submit_task_fields)
next
  case (WorkerEv i now)
  then show ?thesis using worker_event_fields by simp
qed

subsection \<open>The steps of a worker, case by case\<close>

lemma tq_tasks_append: "tq_tasks (q @ r) = tq_tasks q @ tq_tasks r"
  by (induction q rule: tq_tasks.induct) simp_all

lemma rq_tasks_append: "rq_tasks (q @ r) = rq_tasks q @ rq_tasks r"
  by (induction q rule: rq_tasks.induct) simp_all

lemma tq_tasks_pills: "tq_tasks (replicate k (Item None)) = []"
  by (induction k) simp_all

lemma held_split:
  "i < length ws \<Longrightarrow>
   held ws = held (take i ws) @ held_of (wstate (ws ! i)) @ held (drop (Suc i) ws)"
  by (subst id_take_nth_drop [of i ws]) (simp_all add: held_def)

lemma held_update:
  "i < length ws \<Longrightarrow>
   held (ws[i := w]) = held (take i ws) @ held_of (wstate w) @ held (drop (Suc i) ws)"
  by (simp add: upd_conv_take_nth_drop held_def)

lemma held_started: "held (map (\<lambda>w. w\<lparr>wstate := Await\<rparr>) ws) = []"
  by (induction ws) (simp_all add: held_def)

lemma held_Created: "\<forall>w \<in> set ws. wstate w = Created \<Longrightarrow> held ws = []"
  by (induction ws) (simp_all add: held_def)

text \<open>What a worker step does, case by case.\<close>

lemma worker_event_idle:
  assumes "i < length (workers (mst c))"
    and "wstate (workers (mst c) ! i) = Created \<or> wstate (workers (mst c) ! i) = Stopped \<or>
         (wstate (workers (mst c) ! i) = Await \<and> task_queue (mst c) = [])"
  shows "step e (WorkerEv i now) c = c"
  using assms by (auto simp: worker_step.simps)

lemma worker_event_take:
  assumes "i < length (workers (mst c))" and "wstate (workers (mst c) ! i) = Await"
    and "task_queue (mst c) = Item (Some t) # q"
  shows "step e (WorkerEv i now) c =
           c\<lparr>mst := (mst c)\<lparr>workers := (workers (mst c))
                                [i := (workers (mst c) ! i)\<lparr>wstate := Processing t now\<rparr>],
                            task_queue := q\<rparr>\<rparr>"
  using assms by (simp add: worker_step.simps)

lemma worker_event_pill:
  assumes "i < length (workers (mst c))" and "wstate (workers (mst c) ! i) = Await"
    and "task_queue (mst c) = Item None # q"
  shows "step e (WorkerEv i now) c =
           c\<lparr>mst := (mst c)\<lparr>workers := (workers (mst c))
                                [i := (workers (mst c) ! i)\<lparr>wstate := Stopped\<rparr>],
                            task_queue := q\<rparr>\<rparr>"
  using assms by (simp add: worker_step.simps)

lemma worker_event_fault:
  assumes "i < length (workers (mst c))" and "wstate (workers (mst c) ! i) = Await"
    and "task_queue (mst c) = Fault msg # q"
  shows "step e (WorkerEv i now) c = c\<lparr>mst := (mst c)\<lparr>task_queue := q\<rparr>\<rparr>"
  using assms by (simp add: worker_step.simps)

lemma worker_event_put:
  assumes "i < length (workers (mst c))" and "wstate (workers (mst c) ! i) = Processing t s"
  shows "step e (WorkerEv i now) c =
           c\<lparr>mst := (mst c)\<lparr>workers := (workers (mst c))
                                [i := (workers (mst c) ! i)\<lparr>wstate := Await\<rparr>],
                            result_queue := result_queue (mst c) @
                                              [Item (process_task (loads e) s now t)]\<rparr>\<rparr>"
  using assms by (simp add: worker_step.simps queue_put_def)

lemma worker_event_out: "\<not> i < length (workers (mst c)) \<Longrightarrow> step e (WorkerEv i now) c = c"
  by simp

text \<open>The cases of a worker step, as an elimination rule.\<close>

lemma worker_event_cases [consumes 0, case_names out idle take pill fault put]:
  assumes "\<not> i < length (workers (mst c)) \<Longrightarrow> P"
    and "\<lbrakk>i < length (workers (mst c));
          wstate (workers (mst c) ! i) = Created \<or> wstate (workers (mst c) ! i) = Stopped \<or>
          (wstate (workers (mst c) ! i) = Await \<and> task_queue (mst c) = [])\<rbrakk> \<Longrightarrow> P"
    and "\<And>t q. \<lbrakk>i < length (workers (mst c)); wstate (workers (mst c) ! i) = Await;
          task_queue (mst c) = Item (Some t) # q\<rbrakk> \<Longrightarrow> P"
    and "\<And>q. \<lbrakk>i < length (workers (mst c)); wstate (workers (mst c) ! i) = Await;
          task_queue (mst c) = Item None # q\<rbrakk> \<Longrightarrow> P"
    and "\<And>msg q. \<lbrakk>i < length (workers (mst c)); wstate (workers (mst c) ! i) = Await;
          task_queue (mst c) = Fault msg # q\<rbrakk> \<Longrightarrow> P"
    and "\<And>t s. \<lbrakk>i < length (workers (mst c));
          wstate (workers (mst c) ! i) = Processing t s\<rbrakk> \<Longrightarrow> P"
  shows P
proof (cases "i < length (workers (mst c))")
  case False
  then show ?thesis by (rule assms(1))
next
  case True
  show ?thesis
  proof (cases "wstate (workers (mst c) ! i)")
    case Created
    with True show ?thesis by (intro assms(2)) simp_all
  next
    case Stopped
    with True show ?thesis by (intro assms(2)) simp_all
  next
    case (Processing t s)
    with True show ?thesis by (intro assms(6))
  next
    case Await
    show ?thesis
    proof (cases "task_queue (mst c)")
      case Nil
      with True Await show ?thesis by (intro assms(2)) simp_all
    next
      case (Cons x q)
      show ?thesis
      proof (cases x)
        case (Fault msg)
        with True Await Cons show ?thesis by (intro assms(5)) simp_all
      next
        case (Item y)
        with True Await Cons show ?thesis
          by (cases y) (auto intro: assms(3) assms(4))
      qed
    qed
  qed
qed

declare step.simps [simp del]

subsection \<open>Steps move tasks and neither create nor lose them\<close>

lemma held_start_all: "held (snd (start_all ws)) = held ws"
  by (induction ws) (auto simp: held_def split: prod.splits)

lemma start_workers_held: "held (workers (snd (start_workers m))) = held (workers m)"
  using held_start_all [of "workers m"]
  by (auto simp: start_workers_def split: prod.splits option.splits)

lemma stop_workers_tq_tasks:
  "tq_tasks (task_queue (snd (stop_workers m))) = tq_tasks (task_queue m)"
  by (auto simp: stop_workers_def Let_def tq_tasks_append tq_tasks_pills split: list.splits)

lemma collect_get_Some:
  "collect_get m = (Some t, m') \<Longrightarrow>
   rq_tasks (result_queue m) = t # rq_tasks (result_queue m') \<and>
   (\<exists>q. result_queue m = Item t # q \<and> result_queue m' = q)"
  by (cases "result_queue m" rule: queue_get.cases) (auto simp: collect_get_def)

lemma collect_get_None:
  "collect_get m = (None, m') \<Longrightarrow>
   rq_tasks (result_queue m') = rq_tasks (result_queue m) \<and>
   (\<forall>t q. result_queue m \<noteq> Item t # q)"
  by (cases "result_queue m" rule: queue_get.cases) (auto simp: collect_get_def)

lemma loop_head_parts:
  "all_results (loop_head now c) = all_results c \<and>
   batch_of (pc (loop_head now c)) = [] \<and>
   arg_num_tasks (loop_head now c) = arg_num_tasks c \<and>
   report (loop_head now c) = report c \<and>
   wait_timeout (loop_head now c) = wait_timeout c"
  by (simp add: loop_head_def)

lemma enter_wait_parts:
  "all_results (enter_wait now c) = all_results c \<and>
   batch_of (pc (enter_wait now c)) = [] \<and>
   arg_num_tasks (enter_wait now c) = arg_num_tasks c \<and>
   report (enter_wait now c) = report c \<and>
   wait_timeout (enter_wait now c) = None"
  by (simp add: enter_wait_def loop_head_parts)

text \<open>What a master step does to the tasks in the system.\<close>

lemma flight_master_step:
  "flight (master_step e now c) =
     flight c @
     (case pc c of
        Gen i \<Rightarrow> [generate_random_task (rng e (int i + 1)) (int i + 1)]
      | _ \<Rightarrow> [])"
proof (cases "pc c")
  case Start
  obtain x m' where s: "start_workers (mst c) = (x, m')" by (cases "start_workers (mst c)")
  from start_workers_held [of "mst c"] start_workers_fields [OF s] s
  have "held (workers m') = held (workers (mst c))" "task_queue m' = task_queue (mst c)"
       "result_queue m' = result_queue (mst c)" by simp_all
  with Start s show ?thesis
    by (cases x)
       (simp_all add: master_step_def flight_def Let_def enter_wait_parts enter_wait_fields)
next
  case (Gen i)
  then show ?thesis
    by (simp add: master_step_def flight_def Let_def enter_wait_parts enter_wait_fields
          submit_task_fields tq_tasks_append)
next
  case (Collect final batch)
  obtain x m' where g: "collect_get (mst c) = (x, m')" by (cases "collect_get (mst c)")
  show ?thesis
  proof (cases x)
    case None
    with g collect_get_None [of "mst c" m'] collect_get_fields [OF g] Collect show ?thesis
      by (simp add: master_step_def flight_def Let_def loop_head_parts loop_head_fields)
  next
    case (Some t)
    with g collect_get_Some [of "mst c" t m'] collect_get_fields [OF g] Collect show ?thesis
      by (simp add: master_step_def flight_def)
  qed
next
  case Stop
  obtain x m' where s: "stop_workers (mst c) = (x, m')" by (cases "stop_workers (mst c)")
  from stop_workers_tq_tasks [of "mst c"] stop_workers_fields [OF s] s
  have "tq_tasks (task_queue m') = tq_tasks (task_queue (mst c))" "workers m' = workers (mst c)"
       "result_queue m' = result_queue (mst c)" by simp_all
  with Stop s show ?thesis
    by (cases x) (simp_all add: master_step_def flight_def)
next
  case Done
  then show ?thesis by (simp add: master_step_def)
qed

lemma ids_process_task: "id' (process_task wl s f t) = id' t"
  by (simp add: process_task_fields)

text \<open>A worker step moves at most one task, and keeps its id.\<close>

lemma flight_worker_step_mset:
  "mset (map id' (flight (step e (WorkerEv i now) c))) = mset (map id' (flight c))"
proof (cases rule: worker_event_cases [of i c])
  case out
  then show ?thesis by (simp add: worker_event_out)
next
  case idle
  then show ?thesis by (simp add: worker_event_idle)
next
  case (take t q)
  then show ?thesis
    by (simp add: worker_event_take flight_def held_update held_split [of i "workers (mst c)"])
next
  case (pill q)
  then show ?thesis
    by (simp add: worker_event_pill flight_def held_update held_split [of i "workers (mst c)"])
next
  case (fault msg q)
  then show ?thesis by (simp add: worker_event_fault flight_def)
next
  case (put t s)
  then show ?thesis
    by (simp add: worker_event_put flight_def held_update held_split [of i "workers (mst c)"]
          rq_tasks_append ids_process_task)
qed

lemma held_single: "length ws = Suc 0 \<Longrightarrow> held ws = held_of (wstate (ws ! 0))"
  by (cases ws) (simp_all add: held_def)

lemma flight_worker_step_single:
  assumes "length (workers (mst c)) = 1"
  shows "map id' (flight (step e (WorkerEv i now) c)) = map id' (flight c)"
proof (cases rule: worker_event_cases [of i c])
  case out
  then show ?thesis by (simp add: worker_event_out)
next
  case idle
  then show ?thesis by (simp add: worker_event_idle)
next
  case (take t q)
  with assms have "i = 0" by simp
  with take assms show ?thesis
    by (simp add: worker_event_take flight_def held_single)
next
  case (pill q)
  with assms have "i = 0" by simp
  with pill assms show ?thesis
    by (simp add: worker_event_pill flight_def held_single)
next
  case (fault msg q)
  then show ?thesis by (simp add: worker_event_fault flight_def)
next
  case (put t s)
  with assms have "i = 0" by simp
  with put assms show ?thesis
    by (simp add: worker_event_put flight_def held_single rq_tasks_append ids_process_task)
qed

subsection \<open>The steps of the master, case by case\<close>

lemma start_workers_fresh: "fresh m \<Longrightarrow> start_workers m = (None, started m)"
  by (simp add: fresh_def start_workers_def start_all_Created started_def)

lemma live_started: "fresh m \<Longrightarrow> live (started m)"
  by (simp add: fresh_def live_def started_def)

lemma master_step_Start:
  assumes "pc c = Start" and "fresh (mst c)"
  shows "master_step e now c =
     (if 0 < arg_num_tasks c
      then c\<lparr>mst := started (mst c), bench_start := now, pc := Gen 0\<rparr>
      else c\<lparr>mst := started (mst c), bench_start := now, wait_timeout := None,
             wait_start := now, pc := Collect True []\<rparr>)"
proof -
  have "tasks_completed (started (mst c)) = 0" "tasks_submitted (started (mst c)) = 0"
    using assms(2) by (simp_all add: fresh_def started_def)
  then show ?thesis
    using assms
    by (simp add: master_step_def start_workers_fresh Let_def enter_wait_def loop_head_def)
qed

lemma master_step_Gen:
  assumes "pc c = Gen i"
  shows "master_step e now c =
     (if int (Suc i) < arg_num_tasks c
      then c\<lparr>mst := submit_task (generate_random_task (rng e (int i + 1)) (int i + 1)) (mst c),
             pc := Gen (Suc i)\<rparr>
      else c\<lparr>mst := submit_task (generate_random_task (rng e (int i + 1)) (int i + 1)) (mst c),
             wait_timeout := None, wait_start := now,
             pc := Collect (\<not> tasks_completed (mst c) < tasks_submitted (mst c) + 1) []\<rparr>)"
  using assms
  by (simp add: master_step_def Let_def enter_wait_def loop_head_def timed_out_def
        submit_task_fields)

lemma master_step_Collect_got:
  assumes "pc c = Collect final b" and "result_queue (mst c) = Item t # q"
  shows "master_step e now c =
     c\<lparr>mst := (mst c)\<lparr>result_queue := q, tasks_completed := tasks_completed (mst c) + 1\<rparr>,
       pc := Collect final (b @ [t])\<rparr>"
  using assms by (simp add: master_step_def collect_get_def)

lemma master_step_Collect_empty_loop:
  assumes "pc c = Collect False b" and "result_queue (mst c) = []" and "wait_timeout c = None"
  shows "master_step e now c =
     c\<lparr>all_results := all_results c @ b,
       pc := Collect (\<not> tasks_completed (mst c) < tasks_submitted (mst c)) []\<rparr>"
proof -
  have eq: "(mst c)\<lparr>result_queue := []\<rparr> = mst c"
    using assms(2) by simp
  show ?thesis
    using assms(1,3)
    by (simp add: master_step_def collect_get_def Let_def loop_head_def timed_out_def
          assms(2) eq)
qed

lemma master_step_Collect_empty_final:
  assumes "pc c = Collect True b" and "result_queue (mst c) = []"
  shows "master_step e now c =
     c\<lparr>all_results := all_results c @ b, pc := Stop,
       report := Some (benchmark_result (mst c) (arg_num_tasks c) (bench_start c) now
                         (all_results c @ b) (rss_mb e))\<rparr>"
proof -
  have eq: "(mst c)\<lparr>result_queue := []\<rparr> = mst c"
    using assms(2) by simp
  show ?thesis
    using assms(1) by (simp add: master_step_def collect_get_def Let_def assms(2) eq)
qed

lemma live_no_Created: "live m \<Longrightarrow> filter (\<lambda>w. wstate w = Created) (workers m) = []"
  by (auto simp: live_def filter_empty_conv)

lemma master_step_Stop:
  assumes "pc c = Stop" and "live (mst c)"
  shows "master_step e now c =
     c\<lparr>mst := (mst c)\<lparr>task_queue := task_queue (mst c) @
                                      replicate (length (workers (mst c))) (Item None),
                      running := False\<rparr>,
       pc := Done\<rparr>"
proof -
  have "running (mst c)" using assms(2) by (simp add: live_def)
  then show ?thesis
    using assms(1) live_no_Created [OF assms(2)]
    by (simp add: master_step_def stop_workers_def Let_def)
qed

lemma master_step_Done: "pc c = Done \<Longrightarrow> master_step e now c = c"
  by (simp add: master_step_def)

lemma live_rq_cases:
  assumes "live m"
  obtains "result_queue m = []" | t q where "result_queue m = Item t # q"
  using assms by (cases "result_queue m") (auto simp: live_def)

lemma live_tq_cases:
  assumes "live m"
  obtains "task_queue m = []" | t q where "task_queue m = Item (Some t) # q"
  using assms by (cases "task_queue m") (auto simp: live_def)

subsection \<open>The invariant is kept\<close>

lemma started_fields:
  "tasks_submitted (started m) = tasks_submitted m \<and>
   tasks_completed (started m) = tasks_completed m \<and>
   task_queue (started m) = task_queue m \<and> result_queue (started m) = result_queue m \<and>
   length (workers (started m)) = length (workers m) \<and> held (workers (started m)) = []"
  by (simp add: started_def held_started)

lemma task_ids_0: "task_ids 0 = []"
  by (simp add: task_ids_def)

lemma task_ids_Suc: "task_ids (Suc i) = task_ids i @ [int i + 1]"
  by (simp add: task_ids_def)

lemma length_task_ids: "length (task_ids k) = k"
  by (simp add: task_ids_def)

lemma live_submit: "live m \<Longrightarrow> live (submit_task t m)"
  by (auto simp: live_def submit_task_def queue_put_def)

lemma inv_master_step:
  assumes "invariant c"
  shows "invariant (master_step e now c)"
proof -
  define c' where "c' = master_step e now c"
  define N where "N = nat (arg_num_tasks c)"
  have fl: "flight c' =
     flight c @ (case pc c of
                   Gen i \<Rightarrow> [generate_random_task (rng e (int i + 1)) (int i + 1)]
                 | _ \<Rightarrow> [])"
    unfolding c'_def by (rule flight_master_step)
  have sub: "tasks_submitted (mst c) = int (submitted_at N (pc c))"
    and com: "tasks_completed (mst c) = int (length (all_results c) + length (batch_of (pc c)))"
    and ids: "mset (map id' (flight c)) = mset (task_ids (submitted_at N (pc c)))"
    using assms by (simp_all add: invariant_def N_def)
  have "invariant c'"
  proof (cases "pc c")
    case Start
    with assms have fr: "fresh (mst c)" by (simp add: invariant_def)
    note eq = master_step_Start [OF Start fr, of e now, folded c'_def]
    show ?thesis
    proof (cases "0 < arg_num_tasks c")
      case True
      with eq have "pc c' = Gen 0" "mst c' = started (mst c)"
        "arg_num_tasks c' = arg_num_tasks c" "all_results c' = all_results c"
        by simp_all
      with True Start sub com ids fl live_started [OF fr] show ?thesis
        by (simp add: invariant_def started_fields N_def)
    next
      case False
      with eq have "pc c' = Collect True []" "mst c' = started (mst c)"
        "arg_num_tasks c' = arg_num_tasks c" "all_results c' = all_results c"
        "wait_timeout c' = None"
        by simp_all
      with False Start sub com ids fl live_started [OF fr] show ?thesis
        by (simp add: invariant_def started_fields N_def)
    qed
  next
    case (Gen i)
    with assms have lv: "live (mst c)" and iN: "i < N" by (simp_all add: invariant_def N_def)
    let ?t = "generate_random_task (rng e (int i + 1)) (int i + 1)"
    have idt: "id' ?t = int i + 1" by (simp add: generate_random_task_def Let_def)
    note eq = master_step_Gen [OF Gen, of e now, folded c'_def]
    from fl Gen ids idt have ids': "mset (map id' (flight c')) = mset (task_ids (Suc i))"
      by (simp add: task_ids_Suc)
    show ?thesis
    proof (cases "int (Suc i) < arg_num_tasks c")
      case True
      with eq have "pc c' = Gen (Suc i)" "mst c' = submit_task ?t (mst c)"
        "arg_num_tasks c' = arg_num_tasks c" "all_results c' = all_results c"
        by simp_all
      with True Gen sub com ids' live_submit [OF lv] show ?thesis
        by (simp add: invariant_def submit_task_fields N_def)
    next
      case False
      with iN have SN: "Suc i = N" by (simp add: N_def)
      from False eq have
        "pc c' = Collect (\<not> tasks_completed (mst c) < tasks_submitted (mst c) + 1) []"
        "mst c' = submit_task ?t (mst c)"
        "arg_num_tasks c' = arg_num_tasks c" "all_results c' = all_results c"
        "wait_timeout c' = None"
        by simp_all
      with Gen sub com ids' live_submit [OF lv] SN show ?thesis
        by (auto simp: invariant_def submit_task_fields N_def)
    qed
  next
    case (Collect final b)
    with assms have lv: "live (mst c)" and wt: "wait_timeout c = None"
      and fin: "if final then N \<le> length (all_results c) + length b
                else length (all_results c) < N"
      by (simp_all add: invariant_def N_def)
    from fl Collect ids have ids': "mset (map id' (flight c')) = mset (task_ids N)"
      by simp
    from lv show ?thesis
    proof (cases rule: live_rq_cases)
      case (2 t q)
      note eq = master_step_Collect_got [OF Collect 2, of e now, folded c'_def]
      from eq have "pc c' = Collect final (b @ [t])"
        "mst c' = (mst c)\<lparr>result_queue := q, tasks_completed := tasks_completed (mst c) + 1\<rparr>"
        "arg_num_tasks c' = arg_num_tasks c" "all_results c' = all_results c"
        "wait_timeout c' = wait_timeout c"
        by simp_all
      moreover have "live ((mst c)\<lparr>result_queue := q,
                                   tasks_completed := tasks_completed (mst c) + 1\<rparr>)"
        using lv 2 by (simp add: live_def)
      ultimately show ?thesis
        using Collect sub com ids' wt fin by (auto simp: invariant_def N_def)
    next
      case 1
      show ?thesis
      proof (cases final)
        case True
        from Collect True have pcT: "pc c = Collect True b" by simp
        note eq = master_step_Collect_empty_final [OF pcT 1, of e now, folded c'_def]
        from eq have "pc c' = Stop" "mst c' = mst c"
          "arg_num_tasks c' = arg_num_tasks c" "all_results c' = all_results c @ b"
          "reported c'"
          by (auto simp: reported_def)
        with Collect sub com ids' fin True lv show ?thesis
          by (simp add: invariant_def N_def)
      next
        case False
        from Collect False have pcF: "pc c = Collect False b" by simp
        note eq = master_step_Collect_empty_loop [OF pcF 1 wt, of e now, folded c'_def]
        from eq have
          "pc c' = Collect (\<not> tasks_completed (mst c) < tasks_submitted (mst c)) []"
          "mst c' = mst c"
          "arg_num_tasks c' = arg_num_tasks c" "all_results c' = all_results c @ b"
          "wait_timeout c' = None"
          using wt by simp_all
        with Collect sub com ids' lv show ?thesis
          by (auto simp: invariant_def N_def)
      qed
    qed
  next
    case Stop
    with assms have lv: "live (mst c)" and fin: "N \<le> length (all_results c)"
      and rep: "reported c"
      by (simp_all add: invariant_def N_def)
    note eq = master_step_Stop [OF Stop lv, of e now, folded c'_def]
    from fl Stop ids have ids': "mset (map id' (flight c')) = mset (task_ids N)"
      by simp
    from eq have "pc c' = Done" "\<not> running (mst c')"
      "tasks_submitted (mst c') = tasks_submitted (mst c)"
      "tasks_completed (mst c') = tasks_completed (mst c)"
      "arg_num_tasks c' = arg_num_tasks c" "all_results c' = all_results c"
      "report c' = report c" "name (mst c') = name (mst c)"
      "num_workers (mst c') = num_workers (mst c)"
      by simp_all
    moreover from this rep have "reported c'"
      by (simp add: reported_def)
    ultimately show ?thesis
      using Stop sub com ids' fin by (simp add: invariant_def N_def)
  next
    case Done
    with assms show ?thesis by (simp add: c'_def master_step_Done)
  qed
  then show ?thesis by (simp add: c'_def)
qed

lemma worker_event_parts:
  "pc (step e (WorkerEv i now) c) = pc c \<and>
   arg_num_tasks (step e (WorkerEv i now) c) = arg_num_tasks c \<and>
   all_results (step e (WorkerEv i now) c) = all_results c \<and>
   wait_timeout (step e (WorkerEv i now) c) = wait_timeout c \<and>
   report (step e (WorkerEv i now) c) = report c \<and>
   tasks_submitted (mst (step e (WorkerEv i now) c)) = tasks_submitted (mst c) \<and>
   tasks_completed (mst (step e (WorkerEv i now) c)) = tasks_completed (mst c) \<and>
   running (mst (step e (WorkerEv i now) c)) = running (mst c) \<and>
   length (workers (mst (step e (WorkerEv i now) c))) = length (workers (mst c))"
  by (simp add: step.simps split: prod.splits)

lemma fresh_worker_event: "fresh (mst c) \<Longrightarrow> step e (WorkerEv i now) c = c"
  by (cases "i < length (workers (mst c))")
     (simp_all add: worker_event_idle worker_event_out fresh_def)

lemma live_worker_event:
  assumes "live (mst c)"
  shows "live (mst (step e (WorkerEv i now) c))"
proof (cases rule: worker_event_cases [of i c])
  case out
  with assms show ?thesis by (simp add: worker_event_out)
next
  case idle
  with assms show ?thesis by (simp add: worker_event_idle)
next
  case (take t q)
  have "set ((workers (mst c))[i := (workers (mst c) ! i)\<lparr>wstate := Processing t now\<rparr>])
        \<subseteq> insert ((workers (mst c) ! i)\<lparr>wstate := Processing t now\<rparr>) (set (workers (mst c)))"
    by (rule set_update_subset_insert)
  with assms take show ?thesis
    by (auto simp: worker_event_take live_def)
next
  case (pill q)
  with assms show ?thesis by (auto simp: live_def)
next
  case (fault msg q)
  with assms show ?thesis by (auto simp: live_def)
next
  case (put t s)
  have "set ((workers (mst c))[i := (workers (mst c) ! i)\<lparr>wstate := Await\<rparr>])
        \<subseteq> insert ((workers (mst c) ! i)\<lparr>wstate := Await\<rparr>) (set (workers (mst c)))"
    by (rule set_update_subset_insert)
  with assms put show ?thesis
    by (auto simp: worker_event_put live_def)
qed

lemma reported_worker_event: "reported (step e (WorkerEv i now) c) = reported c"
  by (simp add: reported_def worker_event_parts)

lemma inv_worker_event:
  assumes "invariant c"
  shows "invariant (step e (WorkerEv i now) c)"
proof (cases "pc c")
  case Start
  with assms have "fresh (mst c)" by (simp add: invariant_def)
  with assms show ?thesis by (simp add: fresh_worker_event)
next
  case (Gen k)
  with assms live_worker_event [of c e i now] flight_worker_step_mset [of e i now c]
  show ?thesis
    by (simp add: invariant_def worker_event_parts)
next
  case (Collect final b)
  with assms live_worker_event [of c e i now] flight_worker_step_mset [of e i now c]
  show ?thesis
    by (simp add: invariant_def worker_event_parts)
next
  case Stop
  with assms live_worker_event [of c e i now] flight_worker_step_mset [of e i now c]
  show ?thesis
    by (simp add: invariant_def worker_event_parts reported_worker_event)
next
  case Done
  with assms flight_worker_step_mset [of e i now c] show ?thesis
    by (simp add: invariant_def worker_event_parts reported_worker_event)
qed

lemma inv_step: "invariant c \<Longrightarrow> invariant (step e ev c)"
  by (cases ev) (simp_all add: step.simps(1) inv_master_step inv_worker_event)

lemma exec_Nil: "exec e [] c = c"
  by (simp add: exec_def)

lemma exec_Cons: "exec e (ev # evs) c = exec e evs (step e ev c)"
  by (simp add: exec_def)

lemma exec_append: "exec e (evs @ evs') c = exec e evs' (exec e evs c)"
  by (simp add: exec_def)

lemma inv_exec: "invariant c \<Longrightarrow> invariant (exec e evs c)"
  by (induction evs arbitrary: c) (simp_all add: exec_Nil exec_Cons inv_step)

lemma inv_run_benchmark: "fresh m \<Longrightarrow> invariant (run_benchmark m n)"
  by (simp add: invariant_def run_benchmark_def flight_def fresh_def held_Created task_ids_0)

lemma inv_finished:
  assumes "invariant c" and "pc c = Done \<or> pc c = Stop"
  shows "flight c = all_results c \<and>
         length (all_results c) = nat (arg_num_tasks c) \<and>
         mset (map id' (all_results c)) = mset (task_ids (nat (arg_num_tasks c))) \<and>
         tasks_submitted (mst c) = int (nat (arg_num_tasks c)) \<and>
         tasks_completed (mst c) = int (nat (arg_num_tasks c)) \<and>
         reported c"
proof -
  let ?N = "nat (arg_num_tasks c)"
  let ?rest = "rq_tasks (result_queue (mst c)) @ held (workers (mst c)) @
               tq_tasks (task_queue (mst c))"
  from assms have ids: "mset (map id' (flight c)) = mset (task_ids ?N)"
    and le: "?N \<le> length (all_results c)" and rep: "reported c"
    and sub: "tasks_submitted (mst c) = int ?N"
    and com: "tasks_completed (mst c) = int (length (all_results c))"
    by (auto simp: invariant_def)
  from assms(2) have fl: "flight c = all_results c @ ?rest"
    by (auto simp: flight_def)
  from ids have "length (flight c) = ?N"
    by (metis length_map size_mset length_task_ids)
  with fl have "length (all_results c) + length ?rest = ?N"
    by (metis length_append)
  with le have "length ?rest = 0" and len: "length (all_results c) = ?N"
    by linarith+
  then have "?rest = []" by (simp only: length_0_conv)
  with fl have "flight c = all_results c" by simp
  with ids sub com rep len show ?thesis by simp
qed

lemma ids_distinct:
  assumes "mset (map id' ts) = mset (task_ids N)"
  shows "distinct (map id' ts) \<and> set (map id' ts) = {1..int N}"
proof -
  have d: "distinct (map int [1..<Suc N])"
    by (simp add: distinct_map)
  have s: "set (map int [1..<Suc N]) = {1..int N}"
  proof (rule set_eqI)
    fix x :: int
    show "x \<in> set (map int [1..<Suc N]) \<longleftrightarrow> x \<in> {1..int N}"
    proof
      assume "x \<in> set (map int [1..<Suc N])"
      then show "x \<in> {1..int N}" by auto
    next
      assume "x \<in> {1..int N}"
      then have "nat x \<in> set [1..<Suc N]" "int (nat x) = x" by auto
      then show "x \<in> set (map int [1..<Suc N])" by (metis image_eqI set_map)
    qed
  qed
  from assms d have "distinct (map id' ts)"
    unfolding task_ids_def by (metis mset_eq_imp_distinct_iff)
  moreover from assms s have "set (map id' ts) = {1..int N}"
    unfolding task_ids_def by (metis mset_eq_setD)
  ultimately show ?thesis by simp
qed

subsection \<open>A useful step reduces the work that remains\<close>

lemma load_started: "fresh m \<Longrightarrow> load (started m) = load m"
  by (simp add: load_def started_fields fresh_def held_Created)

lemma load_submit: "load (submit_task t m) = load m + 4"
  by (simp add: load_def submit_task_fields tq_tasks_append)

lemma load_got:
  "result_queue m = Item t # q \<Longrightarrow>
   load (m\<lparr>result_queue := q, tasks_completed := x\<rparr>) + 2 = load m"
  by (simp add: load_def)

lemma load_stop:
  "load (m\<lparr>task_queue := task_queue m @ replicate k (Item None), running := False\<rparr>) = load m"
  by (simp add: load_def tq_tasks_append tq_tasks_pills)

lemma potential_master_step:
  assumes "invariant c"
  shows "potential (master_step e now c) \<le> potential c \<and>
         (productive None c \<longrightarrow> potential (master_step e now c) < potential c)"
proof (cases "pc c")
  case Start
  with assms have fr: "fresh (mst c)" by (simp add: invariant_def)
  show ?thesis
    using Start load_started [OF fr]
    by (simp add: master_step_Start [OF Start fr] potential_def)
next
  case (Gen i)
  with assms have iN: "i < nat (arg_num_tasks c)" by (simp add: invariant_def)
  show ?thesis
    using Gen iN by (auto simp: master_step_Gen [OF Gen] potential_def load_submit)
next
  case (Collect final b)
  with assms have lv: "live (mst c)" and wt: "wait_timeout c = None"
    by (simp_all add: invariant_def)
  from lv show ?thesis
  proof (cases rule: live_rq_cases)
    case 1
    show ?thesis
    proof (cases final)
      case True
      with Collect have pcT: "pc c = Collect True b" by simp
      show ?thesis
        using pcT by (simp add: master_step_Collect_empty_final [OF pcT 1] potential_def)
    next
      case False
      with Collect have pcF: "pc c = Collect False b" by simp
      show ?thesis
        using pcF 1
        by (simp add: master_step_Collect_empty_loop [OF pcF 1 wt] potential_def productive_def)
    qed
  next
    case (2 t q)
    show ?thesis
      using Collect load_got [OF 2, of "tasks_completed (mst c) + 1"]
      by (simp add: master_step_Collect_got [OF Collect 2] potential_def)
  qed
next
  case Stop
  with assms have lv: "live (mst c)" by (simp add: invariant_def)
  show ?thesis
    using Stop by (simp add: master_step_Stop [OF Stop lv] potential_def load_stop)
next
  case Done
  then show ?thesis by (simp add: master_step_Done productive_def)
qed

lemma length_held_update:
  assumes "i < length ws"
  shows "length (held (ws[i := w])) + length (held_of (wstate (ws ! i))) =
         length (held ws) + length (held_of (wstate w))"
  using assms by (simp add: held_update held_split [of i ws])

lemma inv_live: "invariant c \<Longrightarrow> pc c \<noteq> Start \<Longrightarrow> pc c \<noteq> Done \<Longrightarrow> live (mst c)"
  by (cases "pc c") (simp_all add: invariant_def)

lemma live_no_pill: "live m \<Longrightarrow> task_queue m \<noteq> Item None # q \<and> task_queue m \<noteq> Fault msg # q"
  by (auto simp: live_def)

lemma potential_worker_event:
  assumes "invariant c"
  shows "potential (step e (WorkerEv i now) c) \<le> potential c \<and>
         (productive (Some i) c \<longrightarrow> potential (step e (WorkerEv i now) c) < potential c)"
proof (cases rule: worker_event_cases [of i c])
  case out
  then show ?thesis by (simp add: worker_event_out productive_def)
next
  case idle
  then show ?thesis by (auto simp: worker_event_idle productive_def)
next
  case (take t q)
  with length_held_update [OF take(1), of "(workers (mst c) ! i)\<lparr>wstate := Processing t now\<rparr>"]
  show ?thesis
    by (simp add: worker_event_take potential_def load_def)
next
  case (pill q)
  have "\<not> productive (Some i) c"
  proof
    assume "productive (Some i) c"
    then have "pc c \<noteq> Start" "pc c \<noteq> Done" by (simp_all add: productive_def)
    with assms have "live (mst c)" by (rule inv_live)
    with pill show False using live_no_pill by blast
  qed
  with pill length_held_update [OF pill(1), of "(workers (mst c) ! i)\<lparr>wstate := Stopped\<rparr>"]
  show ?thesis
    by (simp add: worker_event_pill potential_def load_def)
next
  case (fault msg q)
  have "\<not> productive (Some i) c"
  proof
    assume "productive (Some i) c"
    then have "pc c \<noteq> Start" "pc c \<noteq> Done" by (simp_all add: productive_def)
    with assms have "live (mst c)" by (rule inv_live)
    with fault show False using live_no_pill by blast
  qed
  with fault show ?thesis
    by (simp add: worker_event_fault potential_def load_def)
next
  case (put t s)
  with length_held_update [OF put(1), of "(workers (mst c) ! i)\<lparr>wstate := Await\<rparr>"]
  show ?thesis
    by (simp add: worker_event_put potential_def load_def rq_tasks_append)
qed

lemma potential_step:
  assumes "invariant c"
  shows "potential (step e ev c) \<le> potential c"
    and "productive (actor ev) c \<Longrightarrow> potential (step e ev c) < potential c"
  using potential_master_step [OF assms] potential_worker_event [OF assms]
  by (cases ev; simp add: step.simps(1))+

lemma potential_exec: "invariant c \<Longrightarrow> potential (exec e evs c) \<le> potential c"
proof (induction evs arbitrary: c)
  case Nil
  then show ?case by (simp add: exec_Nil)
next
  case (Cons ev evs)
  from Cons.prems have "invariant (step e ev c)" by (rule inv_step)
  then have "potential (exec e evs (step e ev c)) \<le> potential (step e ev c)"
    by (rule Cons.IH)
  also have "\<dots> \<le> potential c" using Cons.prems by (rule potential_step(1))
  finally show ?case by (simp add: exec_Cons)
qed

subsection \<open>Somebody can always make a useful step\<close>

lemma held_nonempty:
  assumes "held ws \<noteq> []"
  shows "\<exists>i<length ws. \<exists>t s. wstate (ws ! i) = Processing t s"
proof -
  from assms obtain w where w: "w \<in> set ws" "held_of (wstate w) \<noteq> []"
    by (auto simp: held_def)
  from w(1) obtain i where i: "i < length ws" "ws ! i = w"
    by (auto simp: in_set_conv_nth)
  from w(2) obtain t s where "wstate w = Processing t s"
    by (cases "wstate w") simp_all
  with i show ?thesis by blast
qed

lemma tq_tasks_nonempty: "tq_tasks q \<noteq> [] \<Longrightarrow> q \<noteq> []"
  by auto

lemma some_productive:
  assumes "invariant c" and "pc c \<noteq> Done" and "workers (mst c) \<noteq> []"
  shows "\<exists>a. productive a c \<and> (a = None \<or> (\<exists>i<length (workers (mst c)). a = Some i))"
proof (cases "productive None c")
  case True
  then show ?thesis by blast
next
  case False
  with assms(2) obtain b where pcb: "pc c = Collect False b" and b: "b = []"
    and rq: "result_queue (mst c) = []"
    by (cases "pc c") (auto simp: productive_def)
  let ?N = "nat (arg_num_tasks c)"
  from assms(1) pcb have lv: "live (mst c)" and lt: "length (all_results c) < ?N"
    and ids: "mset (map id' (flight c)) = mset (task_ids ?N)"
    by (simp_all add: invariant_def)
  from ids have "length (flight c) = ?N"
    by (metis length_map size_mset length_task_ids)
  with pcb b rq lt
  have ne: "held (workers (mst c)) @ tq_tasks (task_queue (mst c)) \<noteq> []"
    by (auto simp: flight_def)
  show ?thesis
  proof (cases "held (workers (mst c)) = []")
    case False
    from held_nonempty [OF False] obtain i t s where
      "i < length (workers (mst c))" "wstate (workers (mst c) ! i) = Processing t s"
      by blast
    with pcb have "productive (Some i) c" by (simp add: productive_def)
    with \<open>i < length (workers (mst c))\<close> show ?thesis by blast
  next
    case True
    with ne have tq: "task_queue (mst c) \<noteq> []" by auto
    from assms(3) have len: "0 < length (workers (mst c))" by simp
    then have "workers (mst c) ! 0 \<in> set (workers (mst c))" by simp
    with lv have "wstate (workers (mst c) ! 0) = Await \<or>
                  (\<exists>t s. wstate (workers (mst c) ! 0) = Processing t s)"
      by (simp add: live_def)
    moreover have "\<not> (\<exists>t s. wstate (workers (mst c) ! 0) = Processing t s)"
    proof
      assume "\<exists>t s. wstate (workers (mst c) ! 0) = Processing t s"
      with held_split [OF len] True show False by auto
    qed
    ultimately have "wstate (workers (mst c) ! 0) = Await" by blast
    with pcb tq len have "productive (Some 0) c" by (simp add: productive_def)
    with len show ?thesis by blast
  qed
qed

lemma rq_worker_event:
  "result_queue (mst c) \<noteq> [] \<Longrightarrow> result_queue (mst (step e (WorkerEv i now) c)) \<noteq> []"
  by (cases rule: worker_event_cases [of i c])
     (simp_all add: worker_event_out worker_event_idle worker_event_take worker_event_pill
        worker_event_fault worker_event_put)

lemma unproductive_worker_event:
  assumes "invariant c" and "pc c \<noteq> Start" and "pc c \<noteq> Done" and "\<not> productive (Some j) c"
  shows "step e (WorkerEv j now) c = c"
proof -
  from assms(1-3) have lv: "live (mst c)" by (rule inv_live)
  show ?thesis
  proof (cases rule: worker_event_cases [of j c])
    case out
    then show ?thesis by (simp add: worker_event_out)
  next
    case idle
    then show ?thesis by (simp add: worker_event_idle)
  next
    case (take t q)
    with assms(2-4) show ?thesis by (simp add: productive_def)
  next
    case (pill q)
    with lv show ?thesis using live_no_pill by blast
  next
    case (fault msg q)
    with lv show ?thesis using live_no_pill by blast
  next
    case (put t s)
    with assms(2-4) show ?thesis by (simp add: productive_def)
  qed
qed

lemma productive_kept:
  assumes "invariant c" and "productive a c" and "actor ev \<noteq> a"
  shows "productive a (step e ev c) \<or> potential (step e ev c) < potential c"
proof (cases "productive (actor ev) c")
  case True
  with assms(1) show ?thesis by (simp add: potential_step(2))
next
  case unp: False
  show ?thesis
  proof (cases a)
    case None
    with assms(3) obtain j now where ev: "ev = WorkerEv j now" by (cases ev) simp_all
    from assms(2) None have "productive None (step e (WorkerEv j now) c)"
      using rq_worker_event [of c e j now]
      by (auto simp: productive_def worker_event_parts split: pc.splits)
    with ev None show ?thesis by simp
  next
    case (Some i)
    with assms(2) have pcs: "pc c \<noteq> Start" "pc c \<noteq> Done" by (simp_all add: productive_def)
    show ?thesis
    proof (cases ev)
      case (WorkerEv j now)
      with unp have "\<not> productive (Some j) c" by simp
      with assms(1) pcs have "step e (WorkerEv j now) c = c"
        by (rule unproductive_worker_event)
      with WorkerEv assms(2) show ?thesis by simp
    next
      case (MasterEv now)
      with unp have np: "\<not> productive None c" by simp
      with pcs obtain b where pcb: "pc c = Collect False b" and b: "b = []"
        and rq: "result_queue (mst c) = []"
        by (cases "pc c") (auto simp: productive_def)
      from assms(1) pcb have wt: "wait_timeout c = None" by (simp add: invariant_def)
      from assms(2) Some pcb show ?thesis
        by (auto simp: MasterEv step.simps(1) master_step_Collect_empty_loop [OF pcb rq wt]
              productive_def split: wstate.splits)
    qed
  qed
qed

lemma round_progress:
  assumes "invariant c" and "productive a c" and "a \<in> actor ` set r"
  shows "potential (exec e r c) < potential c"
  using assms
proof (induction r arbitrary: c)
  case Nil
  then show ?case by simp
next
  case (Cons ev r)
  have iv: "invariant (step e ev c)" using Cons.prems(1) by (rule inv_step)
  have le: "potential (exec e r (step e ev c)) \<le> potential (step e ev c)"
    using iv by (rule potential_exec)
  have le1: "potential (step e ev c) \<le> potential c"
    using Cons.prems(1) by (rule potential_step(1))
  show ?case
  proof (cases "actor ev = a")
    case True
    with Cons.prems have "potential (step e ev c) < potential c"
      by (simp add: potential_step(2))
    with le show ?thesis by (simp add: exec_Cons)
  next
    case False
    with Cons.prems(3) have mem: "a \<in> actor ` set r" by auto
    from productive_kept [OF Cons.prems(1,2) False, of e]
    show ?thesis
    proof
      assume pr: "productive a (step e ev c)"
      from iv pr mem have "potential (exec e r (step e ev c)) < potential (step e ev c)"
        by (rule Cons.IH)
      with le1 show ?thesis by (simp add: exec_Cons)
    next
      assume "potential (step e ev c) < potential c"
      with le show ?thesis by (simp add: exec_Cons)
    qed
  qed
qed

lemma covers_actor:
  assumes "covers k r"
  shows "None \<in> actor ` set r" and "i < k \<Longrightarrow> Some i \<in> actor ` set r"
  using assms by (simp_all add: covers_def)

lemma covering_round_progress:
  assumes "invariant c" and "pc c \<noteq> Done" and "workers (mst c) \<noteq> []"
    and "covers (length (workers (mst c))) r"
  shows "potential (exec e r c) < potential c"
proof -
  from some_productive [OF assms(1-3)] obtain a where
    a: "productive a c" "a = None \<or> (\<exists>i<length (workers (mst c)). a = Some i)"
    by blast
  from a(2) covers_actor [OF assms(4)] have "a \<in> actor ` set r" by auto
  with assms(1) a(1) show ?thesis by (rule round_progress)
qed

subsection \<open>Termination under fair schedules\<close>

lemma length_start_all: "length (snd (start_all ws)) = length ws"
  by (induction ws) (auto split: prod.splits)

lemma length_workers_master_step:
  "length (workers (mst (master_step e now c))) = length (workers (mst c))"
proof -
  have "length (workers (snd (start_workers m))) = length (workers m)" for m
    using length_start_all [of "workers m"]
    by (auto simp: start_workers_def split: prod.splits option.splits)
  moreover have "workers (snd (stop_workers m)) = workers m" for m
    using stop_workers_fields [OF prod.collapse [symmetric], of m] by simp
  moreover have "workers (snd (collect_get m)) = workers m" for m
    using collect_get_fields [OF prod.collapse [symmetric], of m] by simp
  ultimately show ?thesis
    by (cases "pc c") (simp_all add: master_step_cases submit_task_fields)
qed

lemma length_workers_step: "length (workers (mst (step e ev c))) = length (workers (mst c))"
  by (cases ev) (simp_all add: step.simps(1) length_workers_master_step worker_event_parts)

lemma length_workers_exec: "length (workers (mst (exec e evs c))) = length (workers (mst c))"
  by (induction evs arbitrary: c) (simp_all add: exec_Nil exec_Cons length_workers_step)

lemma arg_master_step: "arg_num_tasks (master_step e now c) = arg_num_tasks c"
  by (simp add: master_step_def Let_def loop_head_parts enter_wait_parts
        split: pc.splits prod.splits option.splits)

lemma arg_step: "arg_num_tasks (step e ev c) = arg_num_tasks c"
  by (cases ev) (simp_all add: step.simps(1) arg_master_step worker_event_parts)

lemma arg_exec: "arg_num_tasks (exec e evs c) = arg_num_tasks c"
  by (induction evs arbitrary: c) (simp_all add: exec_Nil exec_Cons arg_step)

lemma Done_step: "pc c = Done \<Longrightarrow> pc (step e ev c) = Done"
  by (cases ev) (simp_all add: step.simps(1) master_step_Done worker_event_parts)

lemma Done_exec: "pc c = Done \<Longrightarrow> pc (exec e evs c) = Done"
  by (induction evs arbitrary: c) (simp_all add: exec_Nil exec_Cons Done_step)

lemma potential_0: "potential c = 0 \<Longrightarrow> pc c = Done"
  by (cases "pc c") (auto simp: potential_def split: if_splits)

lemma fair_run_finishes:
  assumes "invariant c" and "workers (mst c) \<noteq> []"
    and "\<forall>r \<in> set rs. covers (length (workers (mst c))) r"
    and "potential c \<le> length rs"
  shows "pc (exec e (concat rs) c) = Done"
  using assms
proof (induction rs arbitrary: c)
  case Nil
  then show ?case by (simp add: exec_Nil potential_0)
next
  case (Cons r rs)
  show ?case
  proof (cases "pc c = Done")
    case True
    then show ?thesis by (rule Done_exec)
  next
    case False
    let ?c = "exec e r c"
    from Cons.prems(3) have cov: "covers (length (workers (mst c))) r" by simp
    have "potential ?c < potential c"
      using Cons.prems(1) False Cons.prems(2) cov by (rule covering_round_progress)
    with Cons.prems(4) have pot: "potential ?c \<le> length rs" by simp
    have iv: "invariant ?c" using Cons.prems(1) by (rule inv_exec)
    have len: "length (workers (mst ?c)) = length (workers (mst c))"
      by (rule length_workers_exec)
    with Cons.prems(2) have ne: "workers (mst ?c) \<noteq> []" by (metis length_0_conv)
    from Cons.prems(3) len have cv: "\<forall>r \<in> set rs. covers (length (workers (mst ?c))) r"
      by simp
    from iv ne cv pot have "pc (exec e (concat rs) ?c) = Done" by (rule Cons.IH)
    then show ?thesis by (simp add: exec_append)
  qed
qed

lemma fresh_construct: "construct b v = Inr m \<Longrightarrow> fresh m"
  by (cases b; cases v)
     (auto simp: SingleProcessMaster_def master_init_def fresh_def ThreadWorker_def
        ProcessWorker_def)

lemma potential_run_benchmark: "fresh m \<Longrightarrow> potential (run_benchmark m n) = 5 * nat n + 4"
  by (simp add: potential_def run_benchmark_def load_def fresh_def held_Created)

subsection \<open>The example run\<close>

lemma demo_master_constructed: "construct SingleProcess PNone = Inr demo_master"
  by (simp add: SingleProcessMaster_def demo_master_def)

lemma covers_demo: "covers 1 [MasterEv 0, WorkerEv 0 0]"
  by (simp add: covers_def)

lemma demo_run_Done: "pc (exec demo_env demo_run (run_benchmark demo_master 1)) = Done"
  by (simp add: demo_env_def demo_master_def demo_run_def exec_def step.simps master_step_def
        run_benchmark_def master_init_def ThreadWorker_def start_workers_def stop_workers_def
        submit_task_def collect_get_def queue_put_def worker_step.simps enter_wait_def
        loop_head_def timed_out_def Let_def)

lemma demo_Gen:
  "pc (step demo_env (MasterEv 10) (run_benchmark demo_master 1)) = Gen 0 \<and>
   tasks_submitted (mst (step demo_env (MasterEv 11)
      (step demo_env (MasterEv 10) (run_benchmark demo_master 1)))) = 1 \<and>
   tasks_submitted (mst (step demo_env (MasterEv 10) (run_benchmark demo_master 1))) = 0"
  by (simp add: demo_env_def demo_master_def step.simps master_step_def
        run_benchmark_def master_init_def ThreadWorker_def start_workers_def
        submit_task_def queue_put_def enter_wait_def loop_head_def timed_out_def Let_def)

subsection \<open>A benchmark returns all its results\<close>

text \<open>
  Claim C1, amended. Let the master be constructed by any of the three backends with at
  least one worker in its pool, and let \<open>n \<ge> 0\<close>. Whenever \<open>run_benchmark n\<close> has
  returned, under whatever interleaving of the master and the workers, the list returned by
  \<open>wait_for_completion\<close> has length \<open>n\<close> and holds each of the task ids \<open>1, ..., n\<close>
  exactly once, and \<open>tasks_completed = tasks_submitted = n\<close>. And it does return: every
  schedule made of at least \<open>5 n + 4\<close> rounds, each of which lets the master and every
  worker move at least once, ends with the master returned.
\<close>

theorem run_benchmark_completes:
  assumes "construct b v = Inr m" and "workers m \<noteq> []" and "0 \<le> n"
  shows "(\<forall>evs. pc (exec e evs (run_benchmark m n)) = Done \<longrightarrow>
            length (all_results (exec e evs (run_benchmark m n))) = nat n \<and>
            distinct (map id' (all_results (exec e evs (run_benchmark m n)))) \<and>
            set (map id' (all_results (exec e evs (run_benchmark m n)))) = {1..n} \<and>
            tasks_completed (mst (exec e evs (run_benchmark m n))) = n \<and>
            tasks_submitted (mst (exec e evs (run_benchmark m n))) = n) \<and>
         (\<forall>rs. (\<forall>r \<in> set rs. covers (length (workers m)) r) \<and> 5 * nat n + 4 \<le> length rs \<longrightarrow>
            pc (exec e (concat rs) (run_benchmark m n)) = Done)"
proof (intro conjI allI impI)
  have fr: "fresh m" using assms(1) by (rule fresh_construct)
  then have iv0: "invariant (run_benchmark m n)" by (rule inv_run_benchmark)
  have arg0: "arg_num_tasks (run_benchmark m n) = n" by (simp add: run_benchmark_def)
  have m0: "mst (run_benchmark m n) = m" by (simp add: run_benchmark_def)
  {
    fix evs
    let ?c = "exec e evs (run_benchmark m n)"
    assume d: "pc ?c = Done"
    have "invariant ?c" using iv0 by (rule inv_exec)
    from inv_finished [OF this] d arg0 have
      len: "length (all_results ?c) = nat n"
      and ids: "mset (map id' (all_results ?c)) = mset (task_ids (nat n))"
      and sub: "tasks_submitted (mst ?c) = int (nat n)"
      and com: "tasks_completed (mst ?c) = int (nat n)"
      by (simp_all add: arg_exec)
    from len show "length (all_results ?c) = nat n" .
    from ids_distinct [OF ids] assms(3)
    show "distinct (map id' (all_results ?c))" "set (map id' (all_results ?c)) = {1..n}"
      by simp_all
    from sub com assms(3) show "tasks_completed (mst ?c) = n" "tasks_submitted (mst ?c) = n"
      by simp_all
  }
  {
    fix rs
    assume a: "(\<forall>r \<in> set rs. covers (length (workers m)) r) \<and> 5 * nat n + 4 \<le> length rs"
    show "pc (exec e (concat rs) (run_benchmark m n)) = Done"
      using iv0
    proof (rule fair_run_finishes)
      show "workers (mst (run_benchmark m n)) \<noteq> []" using assms(2) by (simp add: m0)
      show "\<forall>r \<in> set rs. covers (length (workers (mst (run_benchmark m n)))) r"
        using a by (simp add: m0)
      show "potential (run_benchmark m n) \<le> length rs"
        using a by (simp add: potential_run_benchmark [OF fr])
    qed
  }
qed

theorem run_benchmark_completes_witness:
  "construct SingleProcess PNone = Inr demo_master \<and> workers demo_master \<noteq> [] \<and> (0::int) \<le> 1 \<and>
   covers (length (workers demo_master)) [MasterEv 0, WorkerEv 0 0] \<and>
   5 * nat 1 + 4 \<le> length (replicate 9 [MasterEv 0, WorkerEv 0 0]) \<and>
   pc (exec demo_env (concat (replicate 9 [MasterEv 0, WorkerEv 0 0]))
         (run_benchmark demo_master 1)) = Done \<and>
   length (all_results (exec demo_env (concat (replicate 9 [MasterEv 0, WorkerEv 0 0]))
                          (run_benchmark demo_master 1))) = 1 \<and>
   map id' (all_results (exec demo_env (concat (replicate 9 [MasterEv 0, WorkerEv 0 0]))
                          (run_benchmark demo_master 1))) = [1]"
proof -
  let ?rs = "replicate 9 [MasterEv 0, WorkerEv 0 0]"
  let ?c = "exec demo_env (concat ?rs) (run_benchmark demo_master 1)"
  have h2: "workers demo_master \<noteq> []" by (simp add: demo_master_def)
  have h3: "(0::int) \<le> 1" by simp
  have len: "length (workers demo_master) = 1" by (simp add: demo_master_def)
  have cov: "covers (length (workers demo_master)) [MasterEv 0, WorkerEv 0 0]"
    using covers_demo by (simp add: len)
  then have h4: "(\<forall>r \<in> set ?rs. covers (length (workers demo_master)) r) \<and>
            5 * nat 1 + 4 \<le> length ?rs"
    by simp
  note inst = run_benchmark_completes [OF demo_master_constructed h2 h3, of demo_env]
  from inst h4 have d: "pc ?c = Done"
    by blast
  with inst have l: "length (all_results ?c) = nat 1" and s: "set (map id' (all_results ?c)) = {1..1}"
    by blast+
  from l obtain t where t: "all_results ?c = [t]"
    by (cases "all_results ?c") simp_all
  with s have "map id' (all_results ?c) = [1]" by simp
  with d l h2 h3 h4 cov demo_master_constructed show ?thesis by simp
qed

subsection \<open>An empty pool\<close>

lemma stuck_step:
  assumes "stuck c"
  shows "stuck (step e ev c)"
proof (cases ev)
  case (WorkerEv i now)
  with assms show ?thesis by (simp add: worker_event_out stuck_def)
next
  case (MasterEv now)
  from assms have iv: "invariant c" by (simp add: stuck_def)
  then have iv': "invariant (master_step e now c)" by (rule inv_master_step)
  from assms consider "pc c = Start" | i where "pc c = Gen i" | "pc c = Collect False []"
    by (auto simp: stuck_def)
  then have "stuck (master_step e now c)"
  proof cases
    case 1
    with iv have fr: "fresh (mst c)" by (simp add: invariant_def)
    from assms iv' show ?thesis
      by (simp add: stuck_def master_step_Start [OF 1 fr] started_def)
  next
    case (2 i)
    from iv 2 have "tasks_completed (mst c) = 0" "tasks_submitted (mst c) = int i"
      using assms by (simp_all add: invariant_def stuck_def)
    with assms iv' show ?thesis
      by (simp add: stuck_def master_step_Gen [OF 2] submit_task_fields)
  next
    case 3
    from iv 3 have wt: "wait_timeout c = None" and "tasks_completed (mst c) = 0"
      and "tasks_submitted (mst c) = int (nat (arg_num_tasks c))"
      using assms by (simp_all add: invariant_def stuck_def)
    moreover from assms have rq: "result_queue (mst c) = []" by (simp add: stuck_def)
    ultimately show ?thesis
      using assms iv'
      by (simp add: stuck_def master_step_Collect_empty_loop [OF 3 rq wt])
  qed
  with MasterEv show ?thesis by (simp add: step.simps(1))
qed

lemma stuck_exec: "stuck c \<Longrightarrow> stuck (exec e evs c)"
  by (induction evs arbitrary: c) (simp_all add: exec_Nil exec_Cons stuck_step)

lemma empty_pool_stuck:
  assumes "fresh m" and "workers m = []" and "0 < n"
  shows "pc (exec e evs (run_benchmark m n)) \<noteq> Done"
proof -
  have "stuck (run_benchmark m n)"
    using assms inv_run_benchmark [OF assms(1), of n]
    by (simp add: stuck_def) (simp add: run_benchmark_def fresh_def)
  then have "stuck (exec e evs (run_benchmark m n))" by (rule stuck_exec)
  then show ?thesis by (auto simp: stuck_def)
qed

text \<open>
  Claim C1, as stated, fails: a threaded master asked for zero workers is constructed, and
  its \<open>run_benchmark 1\<close> never returns, whatever the workloads and the schedule.
\<close>

theorem empty_pool_never_finishes:
  "construct Threaded (PInt 0) = Inr (master_init ''threaded'' 0) \<and>
   (\<forall>e evs. pc (exec e evs (run_benchmark (master_init ''threaded'' 0) 1)) \<noteq> Done)"
proof -
  have c: "construct Threaded (PInt 0) = Inr (master_init ''threaded'' 0)"
    by (simp add: master_init_def)
  then have "fresh (master_init ''threaded'' 0)" by (rule fresh_construct)
  moreover have "workers (master_init ''threaded'' 0) = []" by (simp add: master_init_def)
  ultimately have "pc (exec e evs (run_benchmark (master_init ''threaded'' 0) 1)) \<noteq> Done"
    for e evs
    by (rule empty_pool_stuck) simp
  with c show ?thesis by blast
qed

subsection \<open>Order of completion with a single worker\<close>

lemma flight_arrived:
  "flight c = arrived c @ held (workers (mst c)) @ tq_tasks (task_queue (mst c))"
  by (simp add: flight_def arrived_def)

lemma arrived_master_step: "arrived (master_step e now c) = arrived c"
proof (cases "pc c")
  case Start
  obtain x m' where s: "start_workers (mst c) = (x, m')" by (cases "start_workers (mst c)")
  from start_workers_fields [OF s] have "result_queue m' = result_queue (mst c)" by simp
  with Start s show ?thesis
    by (cases x)
       (simp_all add: master_step_def arrived_def Let_def enter_wait_parts enter_wait_fields)
next
  case (Gen i)
  then show ?thesis
    by (simp add: master_step_def arrived_def Let_def enter_wait_parts enter_wait_fields
          submit_task_fields)
next
  case (Collect final batch)
  obtain x m' where g: "collect_get (mst c) = (x, m')" by (cases "collect_get (mst c)")
  show ?thesis
  proof (cases x)
    case None
    with g collect_get_None [of "mst c" m'] Collect show ?thesis
      by (simp add: master_step_def arrived_def Let_def loop_head_parts loop_head_fields)
  next
    case (Some t)
    with g collect_get_Some [of "mst c" t m'] Collect show ?thesis
      by (simp add: master_step_def arrived_def)
  qed
next
  case Stop
  obtain x m' where s: "stop_workers (mst c) = (x, m')" by (cases "stop_workers (mst c)")
  from stop_workers_fields [OF s] have "result_queue m' = result_queue (mst c)" by simp
  with Stop s show ?thesis
    by (cases x) (simp_all add: master_step_def arrived_def)
next
  case Done
  then show ?thesis by (simp add: master_step_def)
qed

lemma arrived_worker_event:
  "map id' (arrived (step e (WorkerEv i now) c)) =
   map id' (arrived c) @ arrives (WorkerEv i now) c"
proof (cases rule: worker_event_cases [of i c])
  case out
  then show ?thesis by (simp add: worker_event_out arrives_def)
next
  case idle
  then show ?thesis by (auto simp: worker_event_idle arrives_def)
next
  case (take t q)
  then show ?thesis by (simp add: worker_event_take arrived_def arrives_def)
next
  case (pill q)
  then show ?thesis by (simp add: worker_event_pill arrived_def arrives_def)
next
  case (fault msg q)
  then show ?thesis by (simp add: worker_event_fault arrived_def arrives_def)
next
  case (put t s)
  then show ?thesis
    by (simp add: worker_event_put arrived_def arrives_def rq_tasks_append ids_process_task)
qed

lemma arrived_step: "map id' (arrived (step e ev c)) = map id' (arrived c) @ arrives ev c"
proof (cases ev)
  case (MasterEv now)
  then show ?thesis by (simp add: step.simps(1) arrived_master_step arrives_def)
next
  case (WorkerEv i now)
  then show ?thesis by (simp add: arrived_worker_event)
qed

lemma arrived_exec:
  "map id' (arrived (exec e evs c)) = map id' (arrived c) @ arrived_ids e evs c"
  by (induction evs arbitrary: c) (simp_all add: exec_Nil exec_Cons arrived_step)

lemma id_generate_random_task: "id' (generate_random_task d i) = i"
  by (simp add: generate_random_task_def Let_def)

lemma flight_step_single:
  assumes "length (workers (mst c)) = 1"
  shows "map id' (flight (step e ev c)) = map id' (flight c) @ submits ev c"
proof (cases ev)
  case (MasterEv now)
  then show ?thesis
    by (cases "pc c")
       (simp_all add: step.simps(1) flight_master_step submits_def id_generate_random_task)
next
  case (WorkerEv i now)
  with assms show ?thesis by (simp add: flight_worker_step_single submits_def)
qed

lemma flight_exec_single:
  "length (workers (mst c)) = 1 \<Longrightarrow>
   map id' (flight (exec e evs c)) = map id' (flight c) @ submitted_ids e evs c"
proof (induction evs arbitrary: c)
  case Nil
  then show ?case by (simp add: exec_Nil)
next
  case (Cons ev evs)
  from Cons.prems have "length (workers (mst (step e ev c))) = 1"
    by (simp add: length_workers_step)
  from Cons.IH [OF this] Cons.prems show ?case
    by (simp add: exec_Cons flight_step_single)
qed

lemma submitted_at_master_step:
  assumes "invariant c"
  shows "task_ids (submitted_at (nat (arg_num_tasks c)) (pc (master_step e now c))) =
         task_ids (submitted_at (nat (arg_num_tasks c)) (pc c)) @ submits (MasterEv now) c"
proof (cases "pc c")
  case Start
  with assms have fr: "fresh (mst c)" by (simp add: invariant_def)
  show ?thesis
    using Start by (simp add: master_step_Start [OF Start fr] submits_def)
next
  case (Gen i)
  with assms have "i < nat (arg_num_tasks c)" by (simp add: invariant_def)
  then have "\<not> int (Suc i) < arg_num_tasks c \<Longrightarrow> nat (arg_num_tasks c) = Suc i"
    by linarith
  with Gen show ?thesis
    by (simp add: master_step_Gen [OF Gen] submits_def task_ids_Suc)
next
  case (Collect final b)
  with assms have lv: "live (mst c)" and wt: "wait_timeout c = None"
    by (simp_all add: invariant_def)
  from lv show ?thesis
  proof (cases rule: live_rq_cases)
    case 1
    show ?thesis
    proof (cases final)
      case True
      with Collect have pcT: "pc c = Collect True b" by simp
      show ?thesis
        using pcT by (simp add: master_step_Collect_empty_final [OF pcT 1] submits_def)
    next
      case False
      with Collect have pcF: "pc c = Collect False b" by simp
      show ?thesis
        using pcF by (simp add: master_step_Collect_empty_loop [OF pcF 1 wt] submits_def)
    qed
  next
    case (2 t q)
    show ?thesis
      using Collect by (simp add: master_step_Collect_got [OF Collect 2] submits_def)
  qed
next
  case Stop
  with assms have lv: "live (mst c)" by (simp add: invariant_def)
  show ?thesis
    using Stop by (simp add: master_step_Stop [OF Stop lv] submits_def)
next
  case Done
  then show ?thesis by (simp add: master_step_Done submits_def)
qed

lemma submitted_at_step:
  assumes "invariant c"
  shows "task_ids (submitted_at (nat (arg_num_tasks c)) (pc (step e ev c))) =
         task_ids (submitted_at (nat (arg_num_tasks c)) (pc c)) @ submits ev c"
proof (cases ev)
  case (MasterEv now)
  with assms show ?thesis by (simp add: step.simps(1) submitted_at_master_step)
next
  case (WorkerEv i now)
  then show ?thesis by (simp add: worker_event_parts submits_def)
qed

lemma submitted_at_exec:
  "invariant c \<Longrightarrow>
   task_ids (submitted_at (nat (arg_num_tasks c)) (pc (exec e evs c))) =
   task_ids (submitted_at (nat (arg_num_tasks c)) (pc c)) @ submitted_ids e evs c"
proof (induction evs arbitrary: c)
  case Nil
  then show ?case by (simp add: exec_Nil)
next
  case (Cons ev evs)
  from Cons.prems have "invariant (step e ev c)" by (rule inv_step)
  from Cons.IH [OF this] submitted_at_step [OF Cons.prems, of e ev] show ?case
    by (simp add: exec_Cons arg_step)
qed

text \<open>
  Claim C6. On the single-process backend, at every moment of every run the sequence of
  task ids put on the result queue is an initial segment of the sequence of task ids
  submitted to the task queue, and once \<open>run_benchmark\<close> has returned the two sequences
  are equal: both are \<open>1, ..., n\<close>, and so is the sequence of ids of the list returned.
\<close>

theorem sequential_completion_order:
  assumes "construct SingleProcess v = Inr m"
  shows "prefix (arrived_ids e evs (run_benchmark m n)) (submitted_ids e evs (run_benchmark m n)) \<and>
         (pc (exec e evs (run_benchmark m n)) = Done \<longrightarrow>
            arrived_ids e evs (run_benchmark m n) = submitted_ids e evs (run_benchmark m n) \<and>
            submitted_ids e evs (run_benchmark m n) = task_ids (nat n) \<and>
            map id' (all_results (exec e evs (run_benchmark m n))) = task_ids (nat n))"
proof -
  let ?s = "run_benchmark m n"
  let ?c = "exec e evs ?s"
  have fr: "fresh m" using assms by (rule fresh_construct)
  then have iv0: "invariant ?s" by (rule inv_run_benchmark)
  have one: "length (workers (mst ?s)) = 1"
    using assms by (auto simp: SingleProcessMaster_def run_benchmark_def)
  have fl0: "flight ?s = []" "arrived ?s = []"
    using fr by (simp_all add: flight_def arrived_def run_benchmark_def fresh_def held_Created)
  have sub: "map id' (flight ?c) = submitted_ids e evs ?s"
    using flight_exec_single [OF one, of e evs] fl0 by simp
  have arr: "map id' (arrived ?c) = arrived_ids e evs ?s"
    using arrived_exec [of e evs ?s] fl0 by simp
  have "map id' (flight ?c) =
        map id' (arrived ?c) @ map id' (held (workers (mst ?c)) @ tq_tasks (task_queue (mst ?c)))"
    by (simp add: flight_arrived)
  with sub arr have pre: "prefix (arrived_ids e evs ?s) (submitted_ids e evs ?s)"
    by (metis prefixI)
  have ids: "task_ids (submitted_at (nat n) (pc ?c)) = submitted_ids e evs ?s"
    using submitted_at_exec [OF iv0, of e evs]
    by (simp add: run_benchmark_def task_ids_0)
  {
    assume d: "pc ?c = Done"
    have "invariant ?c" using iv0 by (rule inv_exec)
    from inv_finished [OF this] d have fin: "flight ?c = all_results ?c" by simp
    with flight_arrived [of ?c] d have "arrived ?c = all_results ?c"
      by (simp add: arrived_def)
    with fin sub arr have eq: "arrived_ids e evs ?s = submitted_ids e evs ?s"
      and res: "map id' (all_results ?c) = submitted_ids e evs ?s"
      by simp_all
    from ids d have "submitted_ids e evs ?s = task_ids (nat n)" by simp
    with eq res have
      "arrived_ids e evs ?s = submitted_ids e evs ?s \<and>
       submitted_ids e evs ?s = task_ids (nat n) \<and>
       map id' (all_results ?c) = task_ids (nat n)"
      by simp
  }
  with pre show ?thesis by blast
qed

theorem sequential_completion_order_witness:
  "construct SingleProcess PNone = Inr demo_master \<and>
   pc (exec demo_env demo_run (run_benchmark demo_master 1)) = Done \<and>
   arrived_ids demo_env demo_run (run_benchmark demo_master 1) = [1] \<and>
   submitted_ids demo_env demo_run (run_benchmark demo_master 1) = [1]"
  using sequential_completion_order [OF demo_master_constructed, of demo_env demo_run 1]
        demo_master_constructed demo_run_Done
  by (simp add: task_ids_def)

subsection \<open>The statistics record\<close>













subsection \<open>Counters and worker count\<close>

lemma step_counters:
  "tasks_submitted (mst (step e ev c)) =
     tasks_submitted (mst c) +
     (case ev of MasterEv now \<Rightarrow> (case pc c of Gen i \<Rightarrow> 1 | _ \<Rightarrow> 0) | WorkerEv i now \<Rightarrow> 0) \<and>
   tasks_completed (mst c) \<le> tasks_completed (mst (step e ev c)) \<and>
   (tasks_completed (mst (step e ev c)) \<noteq> tasks_completed (mst c) \<longrightarrow>
      (\<exists>now final b. ev = MasterEv now \<and> pc c = Collect final b))"
proof (cases ev)
  case (WorkerEv i now)
  then show ?thesis by (simp add: worker_event_parts)
next
  case (MasterEv now)
  show ?thesis
    unfolding MasterEv step.simps master_step_cases
    using start_workers_fields [OF prod.collapse [symmetric], of "mst c"]
          stop_workers_fields [OF prod.collapse [symmetric], of "mst c"]
          collect_get_fields [OF prod.collapse [symmetric], of "mst c"]
    by (cases "pc c") (auto simp: submit_task_fields split: option.splits)
qed

lemma exec_counters:
  "tasks_submitted (mst c) \<le> tasks_submitted (mst (exec e evs c)) \<and>
   tasks_completed (mst c) \<le> tasks_completed (mst (exec e evs c))"
proof (induction evs arbitrary: c)
  case Nil
  then show ?case by (simp add: exec_Nil)
next
  case (Cons ev evs)
  have "tasks_submitted (mst c) \<le> tasks_submitted (mst (step e ev c))"
    using step_counters [of e ev c] by (auto split: event.splits pc.splits)
  moreover have "tasks_completed (mst c) \<le> tasks_completed (mst (step e ev c))"
    using step_counters [of e ev c] by simp
  ultimately show ?case
    using Cons.IH [of "step e ev c"] by (simp add: exec_Cons)
qed

lemma exec_num_workers: "num_workers (mst (exec e evs c)) = num_workers (mst c)"
  by (induction evs arbitrary: c) (simp_all add: exec_Nil exec_Cons step_num_workers)

text \<open>
  Claim C9. No operation of the master decreases a counter. \<open>submit_task\<close> adds one to
  \<open>tasks_submitted\<close> and \<open>generate_workload\<close> the number of tasks generated, both
  leaving \<open>tasks_completed\<close> alone; \<open>collect_results\<close> adds the length of the batch to
  \<open>tasks_completed\<close> and leaves \<open>tasks_submitted\<close> alone; \<open>start_workers\<close> and
  \<open>stop_workers\<close> change neither. In a run of \<open>run_benchmark\<close>, which contains
  \<open>wait_for_completion\<close>, interleaved with the workers in any way, every step leaves both
  counters where they are or increases them: \<open>tasks_submitted\<close> changes only in a step
  of the master inside \<open>generate_workload\<close>, by one, and \<open>tasks_completed\<close> only in a
  step of the master inside \<open>collect_results\<close>; no step of a worker touches them.
\<close>

theorem counters_never_decrease:
  "tasks_submitted (submit_task t m) = tasks_submitted m + 1 \<and>
   tasks_completed (submit_task t m) = tasks_completed m \<and>
   tasks_submitted (snd (generate_workload g k m)) = tasks_submitted m + int (nat k) \<and>
   tasks_completed (snd (generate_workload g k m)) = tasks_completed m \<and>
   tasks_submitted (snd (collect_results tmo m)) = tasks_submitted m \<and>
   tasks_completed (snd (collect_results tmo m)) =
     tasks_completed m + int (length (fst (collect_results tmo m))) \<and>
   tasks_submitted (snd (start_workers m)) = tasks_submitted m \<and>
   tasks_completed (snd (start_workers m)) = tasks_completed m \<and>
   tasks_submitted (snd (stop_workers m)) = tasks_submitted m \<and>
   tasks_completed (snd (stop_workers m)) = tasks_completed m \<and>
   tasks_submitted (mst c) \<le> tasks_submitted (mst (step e ev c)) \<and>
   tasks_completed (mst c) \<le> tasks_completed (mst (step e ev c)) \<and>
   (tasks_submitted (mst (step e ev c)) \<noteq> tasks_submitted (mst c) \<longrightarrow>
      (\<exists>now i. ev = MasterEv now \<and> pc c = Gen i) \<and>
      tasks_submitted (mst (step e ev c)) = tasks_submitted (mst c) + 1) \<and>
   (tasks_completed (mst (step e ev c)) \<noteq> tasks_completed (mst c) \<longrightarrow>
      (\<exists>now final b. ev = MasterEv now \<and> pc c = Collect final b)) \<and>
   tasks_submitted (mst c) \<le> tasks_submitted (mst (exec e evs c)) \<and>
   tasks_completed (mst c) \<le> tasks_completed (mst (exec e evs c))"
proof -
  have gen: "tasks_submitted (snd (generate_workload g k m)) = tasks_submitted m + int (nat k)"
    "tasks_completed (snd (generate_workload g k m)) = tasks_completed m"
    using generate_workload_fields [OF prod.collapse [symmetric], of g k m] by simp_all
  have col: "tasks_submitted (snd (collect_results tmo m)) = tasks_submitted m"
    "tasks_completed (snd (collect_results tmo m)) =
       tasks_completed m + int (length (fst (collect_results tmo m)))"
    using collect_loop_fields [OF prod.collapse [symmetric], of m "[]"]
    by (simp_all add: collect_results_def)
  have sta: "tasks_submitted (snd (start_workers m)) = tasks_submitted m"
    "tasks_completed (snd (start_workers m)) = tasks_completed m"
    using start_workers_fields [OF prod.collapse [symmetric], of m] by simp_all
  have sto: "tasks_submitted (snd (stop_workers m)) = tasks_submitted m"
    "tasks_completed (snd (stop_workers m)) = tasks_completed m"
    using stop_workers_fields [OF prod.collapse [symmetric], of m] by simp_all
  have st: "tasks_submitted (mst c) \<le> tasks_submitted (mst (step e ev c))"
    "tasks_completed (mst c) \<le> tasks_completed (mst (step e ev c))"
    "tasks_submitted (mst (step e ev c)) \<noteq> tasks_submitted (mst c) \<longrightarrow>
       (\<exists>now i. ev = MasterEv now \<and> pc c = Gen i) \<and>
       tasks_submitted (mst (step e ev c)) = tasks_submitted (mst c) + 1"
    "tasks_completed (mst (step e ev c)) \<noteq> tasks_completed (mst c) \<longrightarrow>
       (\<exists>now final b. ev = MasterEv now \<and> pc c = Collect final b)"
    using step_counters [of e ev c] by (auto split: event.splits pc.splits)
  show ?thesis
    using gen col sta sto st exec_counters [of c e evs]
    by (simp add: submit_task_fields)
qed

theorem counters_never_decrease_witness:
  "tasks_submitted (mst (step demo_env (MasterEv 11)
      (step demo_env (MasterEv 10) (run_benchmark demo_master 1)))) \<noteq>
   tasks_submitted (mst (step demo_env (MasterEv 10) (run_benchmark demo_master 1))) \<and>
   (\<exists>now i. MasterEv 11 = MasterEv now \<and>
      pc (step demo_env (MasterEv 10) (run_benchmark demo_master 1)) = Gen i) \<and>
   tasks_submitted (mst (step demo_env (MasterEv 11)
      (step demo_env (MasterEv 10) (run_benchmark demo_master 1)))) =
   tasks_submitted (mst (step demo_env (MasterEv 10) (run_benchmark demo_master 1))) + 1"
proof -
  let ?c = "step demo_env (MasterEv 10) (run_benchmark demo_master 1)"
  have h: "tasks_submitted (mst (step demo_env (MasterEv 11) ?c)) \<noteq> tasks_submitted (mst ?c)"
    using demo_Gen by simp
  from counters_never_decrease [of _ _ _ _ _ ?c demo_env "MasterEv 11"] h
  have "(\<exists>now i. MasterEv 11 = MasterEv now \<and> pc ?c = Gen i) \<and>
        tasks_submitted (mst (step demo_env (MasterEv 11) ?c)) = tasks_submitted (mst ?c) + 1"
    by blast
  with h show ?thesis by blast
qed

text \<open>
  Claim C8. Whatever worker count is requested, the single-process master is constructed
  with \<open>num_workers = 1\<close> and a pool of exactly one worker. For every backend, no
  operation of the master and no step of a run changes \<open>num_workers\<close>, nor the size of
  the pool.
\<close>

theorem num_workers_fixed:
  "(\<exists>m. SingleProcessMaster v = Inr m \<and> num_workers m = 1 \<and> length (workers m) = 1) \<and>
   num_workers (submit_task t m) = num_workers m \<and>
   num_workers (snd (generate_workload g k m)) = num_workers m \<and>
   num_workers (snd (collect_results tmo m)) = num_workers m \<and>
   num_workers (snd (start_workers m)) = num_workers m \<and>
   num_workers (snd (stop_workers m)) = num_workers m \<and>
   num_workers (mst (step e ev c)) = num_workers (mst c) \<and>
   num_workers (mst (exec e evs c)) = num_workers (mst c) \<and>
   length (workers (mst (exec e evs c))) = length (workers (mst c))"
proof -
  have "num_workers (snd (generate_workload g k m)) = num_workers m"
    using generate_workload_fields [OF prod.collapse [symmetric], of g k m] by simp
  moreover have "num_workers (snd (collect_results tmo m)) = num_workers m"
    using collect_loop_fields [OF prod.collapse [symmetric], of m "[]"]
    by (simp add: collect_results_def)
  moreover have "num_workers (snd (start_workers m)) = num_workers m"
    using start_workers_fields [OF prod.collapse [symmetric], of m] by simp
  moreover have "num_workers (snd (stop_workers m)) = num_workers m"
    using stop_workers_fields [OF prod.collapse [symmetric], of m] by simp
  ultimately show ?thesis
    by (simp add: SingleProcessMaster_def master_init_def submit_task_fields step_num_workers
          exec_num_workers length_workers_exec)
qed

end
